theory Spec2Isabelle
  imports
    Complex_Main
    "HOL-Library.AList"
    "HOL-Library.Char_ord"
    "HOL-Library.List_Lexorder"
    "HOL-Library.Product_Lexorder"
begin

section \<open>Parsed extractions\<close>

text \<open>
  The value \<^verbatim>\<open>json.loads\<close> returns for a model response is a Python dict. Its
  values are modelled as the extraction's data model has them: a scalar (\<^verbatim>\<open>None\<close>, a
  bool, an int, a float, a str) or a list of scalars. A float is represented by the
  rational number it denotes. A dict is an association list in insertion order;
  \<^verbatim>\<open>d[key] = v\<close> is \<open>AList.update\<close>, which overwrites in place when the key
  exists and appends otherwise. Text is a list of 8-bit characters, read as code points
  below 256.
\<close>

datatype scalar = SNull | SBool bool | SInt int | SFloat rat | SStr string

datatype jvalue = Scalar scalar | Seq "scalar list"

type_synonym raw_extraction = "(string \<times> jvalue) list"

subsection \<open>\<^verbatim>\<open>extract_json_from_response\<close>\<close>

text \<open>
  \<^verbatim>\<open>re.search(r'\{.*\}', response_text, re.DOTALL)\<close>: the leftmost match starts at
  the first opening brace, and the greedy \<^verbatim>\<open>.*\<close> (which also crosses newlines) runs to
  the last closing brace behind it. There is no match when no closing brace follows the
  first opening brace.
\<close>

definition re_search_braces :: "string \<Rightarrow> string option" where
  "re_search_braces response_text =
     (let tail = dropWhile (\<lambda>c. c \<noteq> CHR ''{'') response_text
      in if CHR ''}'' \<in> set tail
         then Some (rev (dropWhile (\<lambda>c. c \<noteq> CHR ''}'') (rev tail)))
         else None)"

text \<open>Python truth value of a parsed value (\<^verbatim>\<open>not json_data['Product']\<close> negates it).\<close>

fun truthy :: "jvalue \<Rightarrow> bool" where
  "truthy (Scalar SNull) = False"
| "truthy (Scalar (SBool b)) = b"
| "truthy (Scalar (SInt i)) = (i \<noteq> 0)"
| "truthy (Scalar (SFloat r)) = (r \<noteq> 0)"
| "truthy (Scalar (SStr s)) = (s \<noteq> [])"
| "truthy (Seq xs) = (xs \<noteq> [])"

text \<open>
  Exceptions are values. The parser \<^verbatim>\<open>json.loads\<close> is a parameter \<open>loads\<close> with
  three outcomes: the parsed dict (its argument begins with an opening brace, so a
  successful parse is a dict), \<^verbatim>\<open>JSONDecodeError\<close>, or another exception (such as
  RecursionError on deep nesting), which the function does not catch. The result is
  \<open>Inl\<close> of a propagated exception, \<open>Inr None\<close> for \<^verbatim>\<open>return None\<close>, and
  \<open>Inr (Some json_data)\<close> for the returned dict.
\<close>

datatype py_exception = KeyError | ValueError | AttributeError | TypeError | OtherError

datatype loads_outcome = Loaded raw_extraction | JSONDecodeError | Raised py_exception

definition extract_json_from_response ::
  "(string \<Rightarrow> loads_outcome) \<Rightarrow> string \<Rightarrow> py_exception + raw_extraction option" where
  "extract_json_from_response loads response_text =
     (case re_search_braces response_text of
        None \<Rightarrow> Inr None
      | Some json_match \<Rightarrow>
          (case loads json_match of
             JSONDecodeError \<Rightarrow> Inr None
           | Raised e \<Rightarrow> Inl e
           | Loaded json_data \<Rightarrow>
               (case map_of json_data ''Product'' of
                  None \<Rightarrow> Inr None
                | Some product \<Rightarrow>
                    if \<not> truthy product then Inr None else Inr (Some json_data))))"

subsection \<open>\<^verbatim>\<open>ensure_equal_length_arrays\<close>\<close>

fun isinstance_list :: "jvalue \<Rightarrow> bool" where
  "isinstance_list (Seq xs) = True"
| "isinstance_list (Scalar s) = False"

definition array_keys :: "raw_extraction \<Rightarrow> string list" where
  "array_keys json_data = map fst (filter (\<lambda>(key, value). isinstance_list value) json_data)"

text \<open>
  \<^verbatim>\<open>len(json_data[key])\<close>. The key always comes from \<open>array_keys\<close>, so the lookup
  finds a list; the other branch is never taken on a dict.
\<close>

definition len_at :: "raw_extraction \<Rightarrow> string \<Rightarrow> nat" where
  "len_at json_data key = (case map_of json_data key of Some (Seq xs) \<Rightarrow> length xs | _ \<Rightarrow> 0)"

definition non_empty_lengths :: "raw_extraction \<Rightarrow> nat list" where
  "non_empty_lengths json_data =
     map (len_at json_data) (filter (\<lambda>key. len_at json_data key > 0) (array_keys json_data))"

text \<open>
  \<^verbatim>\<open>collections.Counter\<close>: a dict of counts in order of first occurrence.
  \<^verbatim>\<open>most_common(1)\<close> is \<^verbatim>\<open>max\<close> over the items by count, and \<^verbatim>\<open>max\<close> keeps the first
  maximal item: a later item replaces it only when its count is strictly greater.
\<close>

definition counter_add :: "nat \<Rightarrow> (nat \<times> nat) list \<Rightarrow> (nat \<times> nat) list" where
  "counter_add x c = AList.update x (case map_of c x of None \<Rightarrow> 1 | Some n \<Rightarrow> n + 1) c"

definition Counter :: "nat list \<Rightarrow> (nat \<times> nat) list" where
  "Counter xs = fold counter_add xs []"

fun py_max_count :: "nat \<times> nat \<Rightarrow> (nat \<times> nat) list \<Rightarrow> nat \<times> nat" where
  "py_max_count best [] = best"
| "py_max_count best (item # items) =
     (if snd item > snd best then py_max_count item items else py_max_count best items)"

definition most_common_1 :: "(nat \<times> nat) list \<Rightarrow> (nat \<times> nat) list" where
  "most_common_1 c = (case c of [] \<Rightarrow> [] | item # items \<Rightarrow> [py_max_count item items])"

text \<open>
  \<^verbatim>\<open>Counter(non_empty_lengths).most_common(1)[0][0]\<close>. It is evaluated only after
  the check that \<open>non_empty_lengths\<close> is not empty, so the index is in range.
\<close>

definition target_length :: "nat list \<Rightarrow> nat" where
  "target_length lengths =
     (case most_common_1 (Counter lengths) of
        item # _ \<Rightarrow> fst item
      | [] \<Rightarrow> 0)"

definition filler :: "string \<Rightarrow> scalar" where
  "filler key = (if key \<in> {''Qty'', ''U.Price'', ''Total''} then SInt 0 else SStr [])"

text \<open>One pass of the adjusting loop's body, for one key.\<close>

definition adjust_key :: "nat \<Rightarrow> string \<Rightarrow> raw_extraction \<Rightarrow> raw_extraction" where
  "adjust_key target key json_data =
     (case map_of json_data key of
        Some (Seq xs) \<Rightarrow>
          (let current_length = length xs
           in if current_length = 0
              then AList.update key (Seq (replicate target (filler key))) json_data
              else if current_length < target
              then AList.update key
                     (Seq (xs @ replicate (target - current_length) (filler key))) json_data
              else if current_length > target
              then AList.update key (Seq (take target xs)) json_data
              else json_data)
      | _ \<Rightarrow> json_data)"

definition ensure_equal_length_arrays :: "raw_extraction \<Rightarrow> raw_extraction" where
  "ensure_equal_length_arrays json_data =
     (if array_keys json_data = [] then json_data
      else if non_empty_lengths json_data = [] then json_data
      else fold (adjust_key (target_length (non_empty_lengths json_data)))
             (array_keys json_data) json_data)"

section \<open>Data frames\<close>

text \<open>
  A pandas DataFrame is modelled by its number of rows and its columns in order. A column
  either holds the Python objects it was built from (\<open>ObjCol\<close>, dtype object) or, after
  \<^verbatim>\<open>pd.to_numeric\<close>, numbers with \<open>None\<close> for NaN (\<open>NumCol\<close>). A number is the
  rational it denotes. A step that can raise returns \<open>Inl\<close> of the exception.

  What pandas and the float unit decide on their own is a parameter, collected in the
  record \<open>library\<close>: whether the \<^verbatim>\<open>.str\<close> accessor accepts an object column (it inspects the inferred dtype), how \<^verbatim>\<open>to_numeric\<close> reads a string,
  and the product of two floats.
\<close>

datatype column = ObjCol "scalar list" | NumCol "rat option list"

record dataframe =
  nrows :: nat
  columns :: "(string \<times> column) list"

record library =
  str_accessor_ok :: "scalar list \<Rightarrow> bool"
  str_to_number :: "string \<Rightarrow> rat option"
  float_mul :: "rat \<Rightarrow> rat \<Rightarrow> rat"

text \<open>\<^verbatim>\<open>pd.DataFrame()\<close>\<close>

definition empty_frame :: dataframe where
  "empty_frame = \<lparr>nrows = 0, columns = []\<rparr>"

text \<open>
  \<^verbatim>\<open>str.strip()\<close> removes leading and trailing whitespace; below code point 256 the
  whitespace characters of Python are 9 to 13, 28 to 32, 133 and 160.
\<close>

definition py_isspace :: "char \<Rightarrow> bool" where
  "py_isspace c = ((of_char c :: nat) \<in> {9, 10, 11, 12, 13, 28, 29, 30, 31, 32, 133, 160})"

definition py_strip :: "string \<Rightarrow> string" where
  "py_strip s = rev (dropWhile py_isspace (rev (dropWhile py_isspace s)))"

text \<open>
  \<^verbatim>\<open>series.str.strip()\<close>: refused with AttributeError on a numeric column and on an
  object column the accessor does not accept; otherwise a string is stripped and any
  other element becomes NaN.
\<close>

fun str_strip :: "library \<Rightarrow> column \<Rightarrow> py_exception + scalar list" where
  "str_strip lib (ObjCol xs) =
     (if str_accessor_ok lib xs
      then Inr (map (\<lambda>c. case c of SStr s \<Rightarrow> SStr (py_strip s) | _ \<Rightarrow> SNull) xs)
      else Inl AttributeError)"
| "str_strip lib (NumCol xs) = Inl AttributeError"

text \<open>\<^verbatim>\<open>series != ''\<close> on an object column: NaN differs from every string.\<close>

definition ne_empty_string :: "scalar list \<Rightarrow> bool list" where
  "ne_empty_string xs = map (\<lambda>c. c \<noteq> SStr []) xs"

fun notna :: "column \<Rightarrow> bool list" where
  "notna (ObjCol xs) = map (\<lambda>c. c \<noteq> SNull) xs"
| "notna (NumCol xs) = map (\<lambda>x. x \<noteq> None) xs"

text \<open>
  \<^verbatim>\<open>series > 0\<close>. On numbers NaN compares false. On an object column a missing value
  compares false, a bool counts as 0 or 1, and a string raises TypeError.
\<close>

fun obj_gt_zero :: "scalar \<Rightarrow> bool" where
  "obj_gt_zero SNull = False"
| "obj_gt_zero (SBool b) = b"
| "obj_gt_zero (SInt i) = (i > 0)"
| "obj_gt_zero (SFloat r) = (r > 0)"
| "obj_gt_zero (SStr s) = False"

fun is_str :: "scalar \<Rightarrow> bool" where
  "is_str (SStr s) = True"
| "is_str _ = False"

fun gt_zero :: "column \<Rightarrow> py_exception + bool list" where
  "gt_zero (NumCol xs) = Inr (map (\<lambda>x. case x of None \<Rightarrow> False | Some r \<Rightarrow> r > 0) xs)"
| "gt_zero (ObjCol xs) =
     (if list_ex is_str xs then Inl TypeError else Inr (map obj_gt_zero xs))"

definition mask_and :: "bool list \<Rightarrow> bool list \<Rightarrow> bool list" where
  "mask_and a b = map (\<lambda>(x, y). x \<and> y) (zip a b)"

definition mask_or :: "bool list \<Rightarrow> bool list \<Rightarrow> bool list" where
  "mask_or a b = map (\<lambda>(x, y). x \<or> y) (zip a b)"

text \<open>\<^verbatim>\<open>df[row_mask]\<close> keeps the rows where the row_mask is true, in every column.\<close>

definition select :: "bool list \<Rightarrow> 'a list \<Rightarrow> 'a list" where
  "select row_mask xs = map snd (filter fst (zip row_mask xs))"

fun select_col :: "bool list \<Rightarrow> column \<Rightarrow> column" where
  "select_col row_mask (ObjCol xs) = ObjCol (select row_mask xs)"
| "select_col row_mask (NumCol xs) = NumCol (select row_mask xs)"

definition select_rows :: "bool list \<Rightarrow> dataframe \<Rightarrow> dataframe" where
  "select_rows row_mask df =
     \<lparr>nrows = length (filter id row_mask),
      columns = map (\<lambda>(name, col). (name, select_col row_mask col)) (columns df)\<rparr>"

subsection \<open>\<^verbatim>\<open>clean_dataframe\<close>\<close>

definition clean_dataframe :: "library \<Rightarrow> dataframe \<Rightarrow> py_exception + dataframe" where
  "clean_dataframe lib df =
     (case map_of (columns df) ''Product'' of
        None \<Rightarrow> Inl KeyError
      | Some product_col \<Rightarrow>
          (case str_strip lib product_col of
             Inl e \<Rightarrow> Inl e
           | Inr stripped \<Rightarrow>
               (let row_mask = mask_and (ne_empty_string stripped) (notna product_col)
                in case map_of (columns df) ''Total'' of
                     None \<Rightarrow> Inl KeyError
                   | Some total_col \<Rightarrow>
                       (case gt_zero total_col of
                          Inl e \<Rightarrow> Inl e
                        | Inr positive \<Rightarrow>
                            (let row_mask = mask_or row_mask (mask_and positive (notna total_col))
                             in Inr (select_rows row_mask df))))))"

subsection \<open>The per-document pipeline\<close>

text \<open>
  \<^verbatim>\<open>pd.DataFrame(json_data)\<close> for a dict of scalars and lists: the lists are the columns
  and must have one length, a scalar is repeated down its column, and a dict of scalars
  only is refused (ValueError), as are lists of different lengths.
\<close>

fun seq_lengths :: "raw_extraction \<Rightarrow> nat list" where
  "seq_lengths [] = []"
| "seq_lengths ((key, Seq xs) # rest) = length xs # seq_lengths rest"
| "seq_lengths ((key, Scalar s) # rest) = seq_lengths rest"

fun to_column :: "nat \<Rightarrow> jvalue \<Rightarrow> column" where
  "to_column n (Seq xs) = ObjCol xs"
| "to_column n (Scalar s) = ObjCol (replicate n s)"

definition DataFrame :: "raw_extraction \<Rightarrow> py_exception + dataframe" where
  "DataFrame json_data =
     (if json_data = [] then Inr empty_frame
      else case seq_lengths json_data of
             [] \<Rightarrow> Inl ValueError
           | n # ns \<Rightarrow>
               if list_all (\<lambda>m. m = n) ns
               then Inr \<lparr>nrows = n,
                         columns = map (\<lambda>(key, value). (key, to_column n value)) json_data\<rparr>
               else Inl ValueError)"

text \<open>
  \<^verbatim>\<open>pd.to_numeric(series, errors='coerce')\<close>, element by element: a missing value and a
  string that is not a number become NaN, a bool becomes 0 or 1.
\<close>

fun to_numeric_cell :: "library \<Rightarrow> scalar \<Rightarrow> rat option" where
  "to_numeric_cell lib SNull = None"
| "to_numeric_cell lib (SBool b) = Some (if b then 1 else 0)"
| "to_numeric_cell lib (SInt i) = Some (of_int i)"
| "to_numeric_cell lib (SFloat r) = Some r"
| "to_numeric_cell lib (SStr s) = str_to_number lib s"

fun to_numeric :: "library \<Rightarrow> column \<Rightarrow> column" where
  "to_numeric lib (ObjCol xs) = NumCol (map (to_numeric_cell lib) xs)"
| "to_numeric lib (NumCol xs) = NumCol xs"

text \<open>\<^verbatim>\<open>if col in df.columns: df[col] = pd.to_numeric(df[col], errors='coerce')\<close>\<close>

definition coerce_column :: "library \<Rightarrow> string \<Rightarrow> dataframe \<Rightarrow> dataframe" where
  "coerce_column lib col df =
     (case map_of (columns df) col of
        None \<Rightarrow> df
      | Some series \<Rightarrow> df\<lparr>columns := AList.update col (to_numeric lib series) (columns df)\<rparr>)"

text \<open>
  \<^verbatim>\<open>series * 1.25\<close>. NaN stays NaN. The pipeline multiplies a column that
  \<^verbatim>\<open>to_numeric\<close> has returned; on an object column Python multiplies element by element
  and raises TypeError at a string or at None.
\<close>

fun py_number :: "scalar \<Rightarrow> rat option" where
  "py_number (SBool b) = Some (if b then 1 else 0)"
| "py_number (SInt i) = Some (of_int i)"
| "py_number (SFloat r) = Some r"
| "py_number _ = None"

fun times_1_25 :: "library \<Rightarrow> column \<Rightarrow> py_exception + column" where
  "times_1_25 lib (NumCol xs) = Inr (NumCol (map (map_option (\<lambda>x. float_mul lib x (5 / 4))) xs))"
| "times_1_25 lib (ObjCol xs) =
     (if list_all (\<lambda>c. py_number c \<noteq> None) xs
      then Inr (NumCol (map (\<lambda>c. map_option (\<lambda>x. float_mul lib x (5 / 4)) (py_number c)) xs))
      else Inl TypeError)"

text \<open>\<^verbatim>\<open>if 'U.Price' in df.columns: df['Marked_Up_Price'] = df['U.Price'] * 1.25\<close>\<close>

definition add_markup :: "library \<Rightarrow> dataframe \<Rightarrow> py_exception + dataframe" where
  "add_markup lib df =
     (case map_of (columns df) ''U.Price'' of
        None \<Rightarrow> Inr df
      | Some series \<Rightarrow>
          (case times_1_25 lib series of
             Inl e \<Rightarrow> Inl e
           | Inr marked \<Rightarrow>
               Inr (df\<lparr>columns := AList.update ''Marked_Up_Price'' marked (columns df)\<rparr>)))"

text \<open>\<^verbatim>\<open>df['Source'] = os.path.basename(pdf_path)\<close>\<close>

definition set_source :: "string \<Rightarrow> dataframe \<Rightarrow> dataframe" where
  "set_source basename df =
     df\<lparr>columns := AList.update ''Source''
                      (ObjCol (replicate (nrows df) (SStr basename))) (columns df)\<rparr>"

text \<open>
  The body of the \<^verbatim>\<open>try\<close> block of \<^verbatim>\<open>process_pdf\<close>, from the model's response on
  (validating and reading the file and calling the model come before it), and
  \<^verbatim>\<open>process_pdf\<close> itself, whose \<^verbatim>\<open>except Exception\<close> turns every exception into an
  empty frame. \<^verbatim>\<open>process_image\<close> has the same body.
\<close>

definition process_pdf_body ::
  "library \<Rightarrow> (string \<Rightarrow> loads_outcome) \<Rightarrow> string \<Rightarrow> string \<Rightarrow> py_exception + dataframe" where
  "process_pdf_body lib loads basename response =
     (case extract_json_from_response loads response of
        Inl e \<Rightarrow> Inl e
      | Inr None \<Rightarrow> Inr empty_frame
      | Inr (Some json_data) \<Rightarrow>
          (case DataFrame (ensure_equal_length_arrays json_data) of
             Inl e \<Rightarrow> Inl e
           | Inr df \<Rightarrow>
               (case add_markup lib (fold (coerce_column lib) [''Qty'', ''U.Price'', ''Total''] df) of
                  Inl e \<Rightarrow> Inl e
                | Inr df' \<Rightarrow> clean_dataframe lib (set_source basename df'))))"

definition process_pdf ::
  "library \<Rightarrow> (string \<Rightarrow> loads_outcome) \<Rightarrow> string \<Rightarrow> string \<Rightarrow> dataframe" where
  "process_pdf lib loads basename response =
     (case process_pdf_body lib loads basename response of
        Inl e \<Rightarrow> empty_frame
      | Inr df \<Rightarrow> df)"

subsection \<open>Sorting the combined frame\<close>







section \<open>The Gemini variant\<close>

text \<open>
  The second script, \<^verbatim>\<open>OCR_Invoices_Output_Excel_Gemini.py\<close>, has its own
  \<^verbatim>\<open>extract_json_from_response\<close>, \<^verbatim>\<open>ensure_equal_length_arrays\<close> and
  \<^verbatim>\<open>clean_dataframe\<close>. They are translated here from that file, line by line, over
  the same model of the Python and pandas library.
\<close>

definition extract_json_from_response_gemini ::
  "(string \<Rightarrow> loads_outcome) \<Rightarrow> string \<Rightarrow> py_exception + raw_extraction option" where
  "extract_json_from_response_gemini loads response_text =
     (case re_search_braces response_text of
        None \<Rightarrow> Inr None
      | Some json_match \<Rightarrow>
          (case loads json_match of
             JSONDecodeError \<Rightarrow> Inr None
           | Raised e \<Rightarrow> Inl e
           | Loaded json_data \<Rightarrow>
               (case map_of json_data ''Product'' of
                  None \<Rightarrow> Inr None
                | Some product \<Rightarrow>
                    if \<not> truthy product then Inr None else Inr (Some json_data))))"

definition array_keys_gemini :: "raw_extraction \<Rightarrow> string list" where
  "array_keys_gemini json_data =
     map fst (filter (\<lambda>(key, value). isinstance_list value) json_data)"

definition non_empty_lengths_gemini :: "raw_extraction \<Rightarrow> nat list" where
  "non_empty_lengths_gemini json_data =
     map (len_at json_data)
       (filter (\<lambda>key. len_at json_data key > 0) (array_keys_gemini json_data))"

definition filler_gemini :: "string \<Rightarrow> scalar" where
  "filler_gemini key = (if key \<in> {''Qty'', ''U.Price'', ''Total''} then SInt 0 else SStr [])"

definition adjust_key_gemini :: "nat \<Rightarrow> string \<Rightarrow> raw_extraction \<Rightarrow> raw_extraction" where
  "adjust_key_gemini target key json_data =
     (case map_of json_data key of
        Some (Seq xs) \<Rightarrow>
          (let current_length = length xs
           in if current_length = 0
              then AList.update key (Seq (replicate target (filler_gemini key))) json_data
              else if current_length < target
              then AList.update key
                     (Seq (xs @ replicate (target - current_length) (filler_gemini key)))
                     json_data
              else if current_length > target
              then AList.update key (Seq (take target xs)) json_data
              else json_data)
      | _ \<Rightarrow> json_data)"

definition ensure_equal_length_arrays_gemini :: "raw_extraction \<Rightarrow> raw_extraction" where
  "ensure_equal_length_arrays_gemini json_data =
     (if array_keys_gemini json_data = [] then json_data
      else if non_empty_lengths_gemini json_data = [] then json_data
      else fold (adjust_key_gemini (target_length (non_empty_lengths_gemini json_data)))
             (array_keys_gemini json_data) json_data)"

definition clean_dataframe_gemini :: "library \<Rightarrow> dataframe \<Rightarrow> py_exception + dataframe" where
  "clean_dataframe_gemini lib df =
     (case map_of (columns df) ''Product'' of
        None \<Rightarrow> Inl KeyError
      | Some product_col \<Rightarrow>
          (case str_strip lib product_col of
             Inl e \<Rightarrow> Inl e
           | Inr stripped \<Rightarrow>
               (let row_mask = mask_and (ne_empty_string stripped) (notna product_col)
                in case map_of (columns df) ''Total'' of
                     None \<Rightarrow> Inl KeyError
                   | Some total_col \<Rightarrow>
                       (case gt_zero total_col of
                          Inl e \<Rightarrow> Inl e
                        | Inr positive \<Rightarrow>
                            (let row_mask = mask_or row_mask (mask_and positive (notna total_col))
                             in Inr (select_rows row_mask df))))))"

section \<open>Descriptions used in the statements\<close>


text \<open>
  A library instance for the worked examples: the \<^verbatim>\<open>.str\<close> accessor accepts a column
  that holds a string or nothing but missing values, \<^verbatim>\<open>to_numeric\<close> reads the two
  numerals used below and rejects every other string, and the products of the examples
  are exact.
\<close>

definition example_library :: library where
  "example_library =
     \<lparr>str_accessor_ok = (\<lambda>xs. list_ex is_str xs \<or> list_all (\<lambda>c. c = SNull) xs),
      str_to_number = (\<lambda>s. if s = ''12.5'' then Some (25 / 2)
                            else if s = ''7'' then Some 7 else None),
      float_mul = (\<lambda>a b. a * b)\<rparr>"

text \<open>
  The failure signals that the parser's contract names, as a function of the text: the
  signal the contract asks for, or \<open>None\<close> where it asks for none.
\<close>

datatype parse_failure = NoJsonFound | InvalidJson | MissingProductField

definition response_parser_signal ::
  "(string \<Rightarrow> loads_outcome) \<Rightarrow> string \<Rightarrow> parse_failure option" where
  "response_parser_signal loads response_text =
     (case re_search_braces response_text of
        None \<Rightarrow> Some NoJsonFound
      | Some json_match \<Rightarrow>
          (case loads json_match of
             JSONDecodeError \<Rightarrow> Some InvalidJson
           | Raised e \<Rightarrow> None
           | Loaded json_data \<Rightarrow>
               (case map_of json_data ''Product'' of
                  None \<Rightarrow> Some MissingProductField
                | Some product \<Rightarrow>
                    if product = Seq [] \<or> product = Scalar (SStr []) \<or> product = Scalar SNull
                    then Some MissingProductField else None)))"

text \<open>
  The results of \<^verbatim>\<open>json.loads\<close> on the documents of the worked examples; any other text
  of the examples is not JSON.
\<close>

definition example_loads :: "string \<Rightarrow> loads_outcome" where
  \<open>example_loads s =
     (if s = ''{"Product":["X"],"Total":[10]}''
      then Loaded [(''Product'', Seq [SStr ''X'']), (''Total'', Seq [SInt 10])]
      else if s = ''{"Total":[10]}''
      then Loaded [(''Total'', Seq [SInt 10])]
      else if s = ''{"Product":0,"Total":[10]}''
      then Loaded [(''Product'', Scalar (SInt 0)), (''Total'', Seq [SInt 10])]
      else if s = ''{"Product":["Mint","Basil"],"Qty":[2]}''
      then Loaded [(''Product'', Seq [SStr ''Mint'', SStr ''Basil'']), (''Qty'', Seq [SInt 2])]
      else if s = ''{"Product":["A"," "],"U.Price":["12.5","abc"],"Total":[3]}''
      then Loaded [(''Product'', Seq [SStr ''A'', SStr '' '']),
                   (''U.Price'', Seq [SStr ''12.5'', SStr ''abc'']), (''Total'', Seq [SInt 3])]
      else JSONDecodeError)\<close>




text \<open>
  What the loop body leaves at a key, as a function of the value found there: a scalar is
  kept; an empty list becomes \<open>n\<close> fillers; a short list is padded on the right; any
  other list is cut to its first \<open>n\<close> elements (which changes nothing at length \<open>n\<close>).
\<close>

definition reconciled :: "nat \<Rightarrow> string \<Rightarrow> jvalue \<Rightarrow> jvalue" where
  "reconciled n key v =
     (case v of
        Scalar s \<Rightarrow> Scalar s
      | Seq xs \<Rightarrow>
          Seq (if xs = [] then replicate n (filler key)
               else if length xs < n then xs @ replicate (n - length xs) (filler key)
               else take n xs))"

text \<open>
  The lengths of the non-empty list values of an extraction, field by field in the order
  of the fields: the data that the dominant length is a statistic of.
\<close>

fun field_lengths :: "raw_extraction \<Rightarrow> nat list" where
  "field_lengths [] = []"
| "field_lengths ((key, Seq xs) # rest) =
     (if xs = [] then field_lengths rest else length xs # field_lengths rest)"
| "field_lengths ((key, Scalar s) # rest) = field_lengths rest"

text \<open>The keys of a \<open>Counter\<close>: the counted values in order of first occurrence.\<close>

definition first_seen :: "nat list \<Rightarrow> nat list \<Rightarrow> nat list" where
  "first_seen xs acc = fold (\<lambda>x acc. if x \<in> set acc then acc else acc @ [x]) xs acc"

section \<open>Properties of reconciliation\<close>

lemma map_replace_absent:
  "k \<notin> fst ` set d \<Longrightarrow>
   map (\<lambda>(k', v'). if k' = k then (k', f k' v') else (k', v')) d = d"
  by (induction d) auto

lemma update_as_map:
  "distinct (map fst d) \<Longrightarrow> k \<in> fst ` set d \<Longrightarrow>
   AList.update k v d = map (\<lambda>(k', v'). if k' = k then (k', v) else (k', v')) d"
proof (induction d)
  case Nil
  then show ?case by simp
next
  case (Cons p d)
  obtain a b where p: "p = (a, b)" by (cases p)
  show ?case
  proof (cases "a = k")
    case True
    then have "k \<notin> fst ` set d" using Cons.prems(1) p by auto
    then show ?thesis using True p map_replace_absent[of k d "\<lambda>_ _. v"] by simp
  next
    case False
    then show ?thesis using Cons p by auto
  qed
qed

lemma map_replace_same:
  "distinct (map fst d) \<Longrightarrow> map_of d k = Some v \<Longrightarrow>
   map (\<lambda>(k', v'). if k' = k then (k', v) else (k', v')) d = d"
proof (induction d)
  case Nil
  then show ?case by simp
next
  case (Cons p d)
  obtain a b where p: "p = (a, b)" by (cases p)
  show ?case
  proof (cases "a = k")
    case True
    then have "k \<notin> fst ` set d" using Cons.prems(1) p by auto
    then show ?thesis using True p Cons.prems(2) map_replace_absent[of k d "\<lambda>_ _. v"] by simp
  next
    case False
    then show ?thesis using Cons p by auto
  qed
qed

lemma map_replace_lookup:
  "distinct (map fst d) \<Longrightarrow> map_of d k = Some v \<Longrightarrow>
   map (\<lambda>(k', v'). if k' = k then (k', f k' v') else (k', v')) d =
   map (\<lambda>(k', v'). if k' = k then (k', f k v) else (k', v')) d"
proof (induction d)
  case Nil
  then show ?case by simp
next
  case (Cons p d)
  obtain a b where p: "p = (a, b)" by (cases p)
  show ?case
  proof (cases "a = k")
    case True
    then have "k \<notin> fst ` set d" using Cons.prems(1) p by auto
    then show ?thesis
      using True p Cons.prems(2) map_replace_absent[of k d f]
        map_replace_absent[of k d "\<lambda>_ _. f k v"] by simp
  next
    case False
    then show ?thesis using Cons p by auto
  qed
qed

lemma map_of_None_map_id:
  "map_of d k = None \<Longrightarrow> map (\<lambda>(k', v'). if k' = k then (k', f k' v') else (k', v')) d = d"
  by (rule map_replace_absent) (simp add: map_of_eq_None_iff)

lemma adjust_key_as_map:
  assumes "distinct (map fst d)"
  shows "adjust_key n k d = map (\<lambda>(k', v). if k' = k then (k', reconciled n k' v) else (k', v)) d"
proof (cases "map_of d k")
  case None
  then show ?thesis
    using map_of_None_map_id[of d k "reconciled n"] by (simp add: adjust_key_def)
next
  case (Some v)
  then have kin: "k \<in> fst ` set d" by (metis map_of_SomeD fst_conv image_eqI)
  have same: "map (\<lambda>(k', v'). if k' = k then (k', v) else (k', v')) d = d"
    using Some assms by (rule map_replace_same[rotated])
  have eqv: "map (\<lambda>(k', v'). if k' = k then (k', reconciled n k' v') else (k', v')) d
      = map (\<lambda>(k', v'). if k' = k then (k', reconciled n k v) else (k', v')) d"
    using assms Some by (rule map_replace_lookup)
  have rhs: "map (\<lambda>(k', v'). if k' = k then (k', reconciled n k' v') else (k', v')) d
      = AList.update k (reconciled n k v) d"
    using eqv update_as_map[OF assms kin, of "reconciled n k v"] by (simp only:)
  have keep: "AList.update k v d = d"
    using same update_as_map[OF assms kin, of v] by (simp only:)
  show ?thesis
  proof (cases v)
    case (Scalar s)
    then have "reconciled n k v = v" by (simp add: reconciled_def)
    then show ?thesis using Some Scalar rhs keep by (simp add: adjust_key_def)
  next
    case (Seq xs)
    have "adjust_key n k d = AList.update k (reconciled n k v) d"
      using Some Seq keep by (auto simp: adjust_key_def reconciled_def Let_def)
    then show ?thesis using rhs by (simp only:)
  qed
qed

lemma fold_adjust_key_as_map:
  "distinct (map fst d) \<Longrightarrow> distinct ks \<Longrightarrow>
   fold (adjust_key n) ks d =
     map (\<lambda>(k, v). if k \<in> set ks then (k, reconciled n k v) else (k, v)) d"
proof (induction ks arbitrary: d)
  case Nil
  then show ?case by simp
next
  case (Cons k ks)
  let ?d1 = "map (\<lambda>(k', v). if k' = k then (k', reconciled n k' v) else (k', v)) d"
  have fst1: "map fst ?d1 = map fst d" by (induction d) auto
  have "fold (adjust_key n) (k # ks) d = fold (adjust_key n) ks ?d1"
    using Cons.prems adjust_key_as_map by simp
  also have "\<dots> = map (\<lambda>(k, v). if k \<in> set ks then (k, reconciled n k v) else (k, v)) ?d1"
  proof -
    have d1: "distinct (map fst ?d1)" using Cons.prems(1) by (simp only: fst1)
    have d2: "distinct ks" using Cons.prems(2) by simp
    show ?thesis by (rule Cons.IH[OF d1 d2])
  qed
  also have "\<dots> = map (\<lambda>(k', v). if k' \<in> set (k # ks) then (k', reconciled n k' v) else (k', v)) d"
    using Cons.prems(2) by (auto split: if_splits)
  finally show ?case .
qed

lemma distinct_array_keys: "distinct (map fst d) \<Longrightarrow> distinct (array_keys d)"
  unfolding array_keys_def by (simp add: distinct_map_filter)

lemma ensure_as_map:
  assumes "distinct (map fst d)" and "non_empty_lengths d \<noteq> []"
  shows "ensure_equal_length_arrays d = map (\<lambda>(k, v). (k, reconciled (target_length (non_empty_lengths d)) k v)) d"
proof -
  have ak: "array_keys d \<noteq> []" using assms(2) by (auto simp: non_empty_lengths_def)
  have "fold (adjust_key (target_length (non_empty_lengths d))) (array_keys d) d =
     map (\<lambda>(k, v). if k \<in> set (array_keys d) then (k, reconciled (target_length (non_empty_lengths d)) k v) else (k, v)) d"
    using fold_adjust_key_as_map[OF assms(1) distinct_array_keys[OF assms(1)]] .
  also have "\<dots> = map (\<lambda>(k, v). (k, reconciled (target_length (non_empty_lengths d)) k v)) d"
  proof (rule map_cong[OF refl])
    fix x assume "x \<in> set d"
    obtain k v where x: "x = (k, v)" by (cases x)
    show "(case x of (k, v) \<Rightarrow> if k \<in> set (array_keys d) then (k, reconciled (target_length (non_empty_lengths d)) k v) else (k, v))
        = (case x of (k, v) \<Rightarrow> (k, reconciled (target_length (non_empty_lengths d)) k v))"
    proof (cases v)
      case (Scalar s) then show ?thesis using x by (simp add: reconciled_def)
    next
      case (Seq xs)
      then have "k \<in> set (array_keys d)" using x \<open>x \<in> set d\<close>
        by (force simp: array_keys_def)
      then show ?thesis using x by simp
    qed
  qed
  finally show ?thesis using ak assms(2) by (simp add: ensure_equal_length_arrays_def)
qed

lemma py_max_count_split:
  "\<exists>pre post. best # items = pre @ py_max_count best items # post \<and>
     (\<forall>p\<in>set pre. snd p < snd (py_max_count best items)) \<and>
     (\<forall>p\<in>set post. snd p \<le> snd (py_max_count best items))"
proof (induction items arbitrary: best)
  case Nil
  show ?case by (rule exI[of _ "[]"], rule exI[of _ "[]"]) simp
next
  case (Cons item items)
  show ?case
  proof (cases "snd item > snd best")
    case True
    let ?r = "py_max_count item items"
    have r: "py_max_count best (item # items) = ?r" using True by simp
    from Cons.IH[of item] obtain pre post where
      s: "item # items = pre @ ?r # post" and
      lt: "\<forall>p\<in>set pre. snd p < snd ?r" and le: "\<forall>p\<in>set post. snd p \<le> snd ?r"
      by blast
    have "item \<in> set (pre @ ?r # post)" using s by (metis list.set_intros(1))
    then have "snd item \<le> snd ?r" using lt le by auto
    then have bl: "snd best < snd ?r" using True by simp
    have "best # item # items = (best # pre) @ ?r # post" using s by simp
    moreover have "\<forall>p\<in>set (best # pre). snd p < snd ?r" using lt bl by simp
    ultimately show ?thesis unfolding r using le by blast
  next
    case False
    define r where "r = py_max_count best items"
    from Cons.IH[of best] obtain pre post where
      s: "best # items = pre @ r # post" and
      lt: "\<forall>p\<in>set pre. snd p < snd r" and le: "\<forall>p\<in>set post. snd p \<le> snd r"
      unfolding r_def by blast
    have r: "py_max_count best (item # items) = r" using False by (simp add: r_def)
    show ?thesis
    proof (cases pre)
      case Nil
      have br: "best = r" and ip: "items = post" using s Nil by simp_all
      have "snd item \<le> snd r" using False br by simp
      then have le': "\<forall>p\<in>set (item # post). snd p \<le> snd r" using le by simp
      have sp: "best # item # items = [] @ r # (item # post)"
        using br ip by simp
      have "\<forall>p\<in>set ([] :: (nat \<times> nat) list). snd p < snd r" by simp
      then show ?thesis unfolding r using sp le' by blast
    next
      case (Cons b pre')
      have b: "b = best" and i: "items = pre' @ r # post" using s Cons by simp_all
      have "snd best < snd r" using lt Cons b by simp
      then have il: "snd item < snd r" using False by simp
      have sp: "best # item # items = (best # item # pre') @ r # post"
        using i by simp
      have "\<forall>p\<in>set (best # item # pre'). snd p < snd r"
        using lt Cons b il by simp
      then show ?thesis unfolding r using sp le by blast
    qed
  qed
qed

lemma counter_add_keys:
  "map fst (counter_add x c) = (if x \<in> set (map fst c) then map fst c else map fst c @ [x])"
  by (simp add: counter_add_def update_keys)

lemma Counter_keys_gen: "map fst (fold counter_add xs c) = first_seen xs (map fst c)"
  unfolding first_seen_def
  by (induction xs arbitrary: c) (simp_all add: counter_add_keys del: set_map)

lemma first_seen_prefix: "\<exists>ys. first_seen xs acc = acc @ ys"
  unfolding first_seen_def by (induction xs arbitrary: acc) (auto, metis append_assoc)

lemma first_seen_set: "set (first_seen xs acc) = set acc \<union> set xs"
  unfolding first_seen_def by (induction xs arbitrary: acc) auto

lemma first_seen_split:
  assumes "n \<notin> set pre"
  shows "\<exists>ks tail. first_seen (pre @ n # post) [] = ks @ n # tail \<and> set ks = set pre"
proof -
  let ?k = "first_seen pre []"
  have k: "set ?k = set pre" by (simp add: first_seen_set)
  have "first_seen (pre @ n # post) [] = first_seen post (?k @ [n])"
    using assms k by (simp add: first_seen_def)
  moreover obtain ys where "first_seen post (?k @ [n]) = (?k @ [n]) @ ys"
    using first_seen_prefix by blast
  ultimately show ?thesis using k by auto
qed

lemma Counter_distinct_gen:
  "distinct (map fst c) \<Longrightarrow> distinct (map fst (fold counter_add xs c))"
  by (induction xs arbitrary: c) (simp_all add: counter_add_def distinct_update)

lemma map_of_counter_add:
  "map_of (counter_add x c) n =
     (if n = x then Some (case map_of c x of None \<Rightarrow> 1 | Some m \<Rightarrow> m + 1) else map_of c n)"
  by (simp add: counter_add_def update_conv')

lemma Counter_counts_gen:
  "map_of (fold counter_add xs c) n =
     (if n \<in> set xs \<or> map_of c n \<noteq> None
      then Some (count_list xs n + (case map_of c n of None \<Rightarrow> 0 | Some m \<Rightarrow> m))
      else None)"
proof (induction xs arbitrary: c)
  case Nil
  show ?case by (auto split: option.splits)
next
  case (Cons x xs)
  show ?case
    by (simp add: Cons.IH map_of_counter_add split: option.splits)
qed

lemma Counter_keys: "map fst (Counter xs) = first_seen xs []"
  by (simp add: Counter_def Counter_keys_gen)

lemma Counter_distinct: "distinct (map fst (Counter xs))"
  by (simp add: Counter_def Counter_distinct_gen)

lemma Counter_counts:
  "map_of (Counter xs) n = (if n \<in> set xs then Some (count_list xs n) else None)"
  by (simp add: Counter_def Counter_counts_gen)

lemma Counter_item: "(n, c) \<in> set (Counter xs) \<Longrightarrow> n \<in> set xs \<and> c = count_list xs n"
  using Counter_counts[of xs n] Counter_distinct[of xs]
  by (metis map_of_is_SomeI option.distinct(1) option.inject)

lemma Counter_nonempty: "xs \<noteq> [] \<Longrightarrow> Counter xs \<noteq> []"
proof
  assume "xs \<noteq> []" and "Counter xs = []"
  then have "first_seen xs [] = []" using Counter_keys[of xs] by simp
  then have "set xs = {}" using first_seen_set[of xs "[]"] by simp
  then show False using \<open>xs \<noteq> []\<close> by simp
qed

lemma distinct_split_unique:
  "distinct (a @ x # b) \<Longrightarrow> a @ x # b = a' @ x # b' \<Longrightarrow> a = a'"
proof (induction a arbitrary: a')
  case Nil
  then show ?case by (cases a') auto
next
  case (Cons z a)
  show ?case
  proof (cases a')
    case Nil
    then show ?thesis using Cons.prems by auto
  next
    case (Cons y ys)
    have zy: "z = y" and e: "a @ x # b = ys @ x # b'"
      using Cons.prems(2) unfolding Cons by simp_all
    have d: "distinct (a @ x # b)" using Cons.prems(1) by simp
    have "a = ys" using d e by (rule Cons.IH)
    then show ?thesis using zy Cons by simp
  qed
qed

lemma target_length_first_most_frequent:
  assumes "xs \<noteq> []"
  shows "\<exists>pre post. xs = pre @ target_length xs # post \<and> target_length xs \<notin> set pre \<and>
           (\<forall>m\<in>set pre. count_list xs m < count_list xs (target_length xs)) \<and>
           (\<forall>m\<in>set xs. count_list xs m \<le> count_list xs (target_length xs))"
proof -
  obtain item items where C: "Counter xs = item # items"
    using Counter_nonempty[OF assms] by (cases "Counter xs") auto
  let ?r = "py_max_count item items"
  have dom: "target_length xs = fst ?r" by (simp add: target_length_def most_common_1_def C)
  obtain P Q where s: "Counter xs = P @ ?r # Q" and
      lt: "\<forall>p\<in>set P. snd p < snd ?r" and le: "\<forall>p\<in>set Q. snd p \<le> snd ?r"
    using py_max_count_split[of item items] C by auto
  have rin: "(fst ?r, snd ?r) \<in> set (Counter xs)" using s by simp
  then have nin: "fst ?r \<in> set xs" and rc: "snd ?r = count_list xs (fst ?r)"
    using Counter_item by blast+
  obtain pre post where x: "xs = pre @ fst ?r # post" and np: "fst ?r \<notin> set pre"
    using split_list_first[OF nin] by blast
  obtain ks tail where k: "first_seen xs [] = ks @ fst ?r # tail" and ksp: "set ks = set pre"
    using first_seen_split[OF np, of post] x by auto
  have keys: "map fst P @ fst ?r # map fst Q = ks @ fst ?r # tail"
  proof -
    have "map fst (Counter xs) = map fst P @ fst ?r # map fst Q" by (simp add: s)
    then show ?thesis using k Counter_keys[of xs] by simp
  qed
  have "distinct (map fst P @ fst ?r # map fst Q)"
    using Counter_distinct[of xs] s by simp
  then have PK: "map fst P = ks" using keys by (rule distinct_split_unique)
  have pre_lt: "\<forall>m\<in>set pre. count_list xs m < count_list xs (fst ?r)"
  proof
    fix m assume "m \<in> set pre"
    then have "m \<in> set (map fst P)" using PK ksp by simp
    then obtain c where mc: "(m, c) \<in> set P" by auto
    then have "(m, c) \<in> set (Counter xs)" using s by simp
    then have "c = count_list xs m" using Counter_item by blast
    then show "count_list xs m < count_list xs (fst ?r)" using lt mc rc by force
  qed
  have all_le: "\<forall>m\<in>set xs. count_list xs m \<le> count_list xs (fst ?r)"
  proof
    fix m assume "m \<in> set xs"
    then have "map_of (Counter xs) m = Some (count_list xs m)" by (simp add: Counter_counts)
    then have "(m, count_list xs m) \<in> set (P @ ?r # Q)" using s by (metis map_of_SomeD)
    then consider "(m, count_list xs m) \<in> set P" | "(m, count_list xs m) = ?r"
      | "(m, count_list xs m) \<in> set Q" by auto
    then show "count_list xs m \<le> count_list xs (fst ?r)"
    proof cases
      case 1
      then have "snd (m, count_list xs m) < snd ?r" using lt by blast
      then show ?thesis using rc by simp
    next
      case 2
      then have "snd ?r = count_list xs m" by (metis snd_conv)
      then show ?thesis using rc by simp
    next
      case 3
      then have "snd (m, count_list xs m) \<le> snd ?r" using le by blast
      then show ?thesis using rc by simp
    qed
  qed
  show ?thesis unfolding dom using x np pre_lt all_le by blast
qed

lemma map_of_map_values:
  "map_of (map (\<lambda>(k, v). (k, f k v)) d) key = map_option (f key) (map_of d key)"
  by (induction d) auto

lemma map_fst_map_values: "map fst (map (\<lambda>(k, v). (k, f k v)) d) = map fst d"
  by (induction d) auto

lemma reconciled_length: "reconciled n key (Seq xs) = Seq ys \<Longrightarrow> length ys = n"
  by (auto simp: reconciled_def split: if_splits)

lemma reconciled_Seq_ex: "\<exists>ys. reconciled n key (Seq xs) = Seq ys"
  by (simp add: reconciled_def)

lemma reconciled_eq_Seq_D: "reconciled n key v = Seq ys \<Longrightarrow> \<exists>xs. v = Seq xs"
  by (cases v) (simp_all add: reconciled_def)

lemma reconciled_idem: "reconciled n key (reconciled n key v) = reconciled n key v"
  by (cases v) (auto simp: reconciled_def)

lemma len_at_Seq: "map_of d key = Some (Seq xs) \<Longrightarrow> len_at d key = length xs"
  by (simp add: len_at_def)

lemma array_keys_iff:
  "distinct (map fst d) \<Longrightarrow> key \<in> set (array_keys d) \<longleftrightarrow> (\<exists>xs. map_of d key = Some (Seq xs))"
proof
  assume d: "distinct (map fst d)" and "key \<in> set (array_keys d)"
  then obtain v where "(key, v) \<in> set d" "isinstance_list v" by (auto simp: array_keys_def)
  then show "\<exists>xs. map_of d key = Some (Seq xs)" using d by (cases v) auto
next
  assume "\<exists>xs. map_of d key = Some (Seq xs)"
  then obtain xs where "map_of d key = Some (Seq xs)" by blast
  then have "(key, Seq xs) \<in> set d" by (rule map_of_SomeD)
  then show "key \<in> set (array_keys d)" by (force simp: array_keys_def)
qed

lemma in_array_keys: "map_of d key = Some (Seq xs) \<Longrightarrow> key \<in> set (array_keys d)"
proof -
  assume "map_of d key = Some (Seq xs)"
  then have "(key, Seq xs) \<in> set d" by (rule map_of_SomeD)
  then show ?thesis by (force simp: array_keys_def)
qed

lemma non_empty_lengths_nonempty:
  assumes "map_of d key = Some (Seq xs)" and "xs \<noteq> []"
  shows "non_empty_lengths d \<noteq> []"
proof -
  have "key \<in> set (array_keys d)" using assms(1) by (rule in_array_keys)
  moreover have "len_at d key > 0" using assms by (simp add: len_at_Seq)
  ultimately have "key \<in> set (filter (\<lambda>key. len_at d key > 0) (array_keys d))" by simp
  then have "filter (\<lambda>key. len_at d key > 0) (array_keys d) \<noteq> []"
    by (auto simp: filter_empty_conv)
  then show ?thesis unfolding non_empty_lengths_def by simp
qed

lemma non_empty_lengths_positive: "n \<in> set (non_empty_lengths d) \<Longrightarrow> 0 < n"
  by (auto simp: non_empty_lengths_def)

lemma target_length_in_set: "xs \<noteq> [] \<Longrightarrow> target_length xs \<in> set xs"
proof -
  assume "xs \<noteq> []"
  then obtain pre post where "xs = pre @ target_length xs # post"
    using target_length_first_most_frequent[of xs] by blast
  then show ?thesis by (metis in_set_conv_decomp)
qed

lemma target_length_positive:
  "non_empty_lengths d \<noteq> [] \<Longrightarrow> 0 < target_length (non_empty_lengths d)"
  using target_length_in_set non_empty_lengths_positive by blast

lemma ensure_unchanged:
  "non_empty_lengths d = [] \<Longrightarrow> ensure_equal_length_arrays d = d"
  by (simp add: ensure_equal_length_arrays_def)

lemma map_of_ensure:
  assumes "distinct (map fst d)" and "non_empty_lengths d \<noteq> []"
  shows "map_of (ensure_equal_length_arrays d) key =
           map_option (reconciled (target_length (non_empty_lengths d)) key) (map_of d key)"
  by (simp only: ensure_as_map[OF assms] map_of_map_values)

lemma keys_ensure: "distinct (map fst d) \<Longrightarrow> map fst (ensure_equal_length_arrays d) = map fst d"
proof (cases "non_empty_lengths d = []")
  case True
  then show ?thesis by (simp add: ensure_unchanged)
next
  case False
  assume "distinct (map fst d)"
  then have "ensure_equal_length_arrays d =
      map (\<lambda>(k, v). (k, reconciled (target_length (non_empty_lengths d)) k v)) d"
    using False by (rule ensure_as_map)
  then show ?thesis by (simp only: map_fst_map_values)
qed

lemma non_empty_lengths_reconciled:
  assumes d: "distinct (map fst d)" and ne: "non_empty_lengths d \<noteq> []"
  shows "non_empty_lengths (ensure_equal_length_arrays d) \<noteq> [] \<and>
         set (non_empty_lengths (ensure_equal_length_arrays d))
           \<subseteq> {target_length (non_empty_lengths d)}"
proof -
  let ?n = "target_length (non_empty_lengths d)"
  let ?r = "ensure_equal_length_arrays d"
  have pos: "0 < ?n" using ne by (rule target_length_positive)
  have dr: "distinct (map fst ?r)" using d by (simp add: keys_ensure)
  have len: "len_at ?r key = ?n" if "key \<in> set (array_keys ?r)" for key
  proof -
    have "\<exists>ys. map_of ?r key = Some (Seq ys)"
      using that by (simp only: array_keys_iff[OF dr])
    then obtain ys where ys: "map_of ?r key = Some (Seq ys)" ..
    have "map_option (reconciled ?n key) (map_of d key) = Some (Seq ys)"
      using ys map_of_ensure[OF d ne, of key] by simp
    then obtain v where v: "reconciled ?n key v = Seq ys"
      unfolding map_option_eq_Some by blast
    obtain xs where "v = Seq xs" using reconciled_eq_Seq_D[OF v] by blast
    then have "length ys = ?n" using v reconciled_length[of ?n key xs ys] by simp
    then show ?thesis using ys by (simp add: len_at_Seq)
  qed
  have "filter (\<lambda>key. len_at d key > 0) (array_keys d) \<noteq> []"
    using ne by (simp add: non_empty_lengths_def)
  then obtain key where "key \<in> set (filter (\<lambda>key. len_at d key > 0) (array_keys d))"
    by (cases "filter (\<lambda>key. len_at d key > 0) (array_keys d)") auto
  then have kx: "key \<in> set (array_keys d)" by simp
  have "\<exists>xs. map_of d key = Some (Seq xs)"
    using kx by (simp only: array_keys_iff[OF d])
  then obtain xs where xs: "map_of d key = Some (Seq xs)" ..
  obtain ys where rs: "reconciled ?n key (Seq xs) = Seq ys"
    using reconciled_Seq_ex[of ?n key xs] by blast
  have "map_of ?r key = Some (Seq ys)"
    using map_of_ensure[OF d ne, of key] xs rs by simp
  then have kr: "key \<in> set (array_keys ?r)" by (rule in_array_keys)
  then have "len_at ?r key > 0" using len pos by simp
  then have "key \<in> set (filter (\<lambda>key. len_at ?r key > 0) (array_keys ?r))" using kr by simp
  then have "filter (\<lambda>key. len_at ?r key > 0) (array_keys ?r) \<noteq> []"
    by (auto simp: filter_empty_conv)
  then have a: "non_empty_lengths ?r \<noteq> []"
    unfolding non_empty_lengths_def by simp
  have b: "set (non_empty_lengths ?r) \<subseteq> {?n}"
    using len by (auto simp: non_empty_lengths_def)
  show ?thesis using a b by blast
qed

lemma ensure_idempotent_distinct:
  assumes d: "distinct (map fst d)"
  shows "ensure_equal_length_arrays (ensure_equal_length_arrays d) = ensure_equal_length_arrays d"
proof (cases "non_empty_lengths d = []")
  case True
  then show ?thesis by (simp add: ensure_unchanged)
next
  case False
  let ?n = "target_length (non_empty_lengths d)"
  let ?r = "ensure_equal_length_arrays d"
  have dr: "distinct (map fst ?r)" using d by (simp add: keys_ensure)
  have ne: "non_empty_lengths ?r \<noteq> []" and sub: "set (non_empty_lengths ?r) \<subseteq> {?n}"
    using non_empty_lengths_reconciled[OF d False] by blast+
  have "target_length (non_empty_lengths ?r) \<in> set (non_empty_lengths ?r)"
    using ne by (rule target_length_in_set)
  then have t: "target_length (non_empty_lengths ?r) = ?n" using sub by blast
  have r: "?r = map (\<lambda>(k, v). (k, reconciled ?n k v)) d" using d False by (rule ensure_as_map)
  have "ensure_equal_length_arrays ?r = map (\<lambda>(k, v). (k, reconciled ?n k v)) ?r"
    using ensure_as_map[OF dr ne] t by simp
  also have "\<dots> = map (\<lambda>(k, v). (k, reconciled ?n k v)) (map (\<lambda>(k, v). (k, reconciled ?n k v)) d)"
    using r by simp
  also have "\<dots> = map (\<lambda>(k, v). (k, reconciled ?n k v)) d"
    by (induction d) (auto simp: reconciled_idem)
  finally show ?thesis using r by simp
qed

subsection \<open>Claims about reconciliation\<close>

text \<open>
  Claim C1. For a parsed extraction with at least one non-empty list value, let N be the
  dominant length. After \<open>ensure_equal_length_arrays\<close> the keys are the same, in the
  same order; every list value has length exactly N; a list of length 0 has become N
  copies of the filler; a list of length between 1 and N - 1 has been padded on the right
  with the filler up to length N; a longer list has been cut to its first N elements. The
  filler is the integer 0 for the keys Qty, U.Price and Total, and the empty string for
  every other key.
\<close>

theorem ensure_equal_length_arrays_lengths:
  assumes "distinct (map fst json_data)"
    and "map_of json_data k0 = Some (Seq xs0)" and "xs0 \<noteq> []"
    and "N = target_length (non_empty_lengths json_data)"
  shows "map fst (ensure_equal_length_arrays json_data) = map fst json_data \<and>
    (\<forall>key ys. map_of (ensure_equal_length_arrays json_data) key = Some (Seq ys)
        \<longrightarrow> length ys = N) \<and>
    (\<forall>key xs. map_of json_data key = Some (Seq xs) \<longrightarrow>
       (\<exists>ys. map_of (ensure_equal_length_arrays json_data) key = Some (Seq ys) \<and>
          length ys = N \<and>
          (length xs = 0 \<longrightarrow> ys = replicate N (filler key)) \<and>
          (1 \<le> length xs \<and> length xs \<le> N - 1 \<longrightarrow>
             ys = xs @ replicate (N - length xs) (filler key)) \<and>
          (N < length xs \<longrightarrow> ys = take N xs))) \<and>
    (\<forall>key. filler key =
       (if key = ''Qty'' \<or> key = ''U.Price'' \<or> key = ''Total'' then SInt 0 else SStr ''''))"
proof -
  let ?r = "ensure_equal_length_arrays json_data"
  have ne: "non_empty_lengths json_data \<noteq> []"
    using assms(2,3) by (rule non_empty_lengths_nonempty)
  have look: "map_of ?r key = map_option (reconciled N key) (map_of json_data key)" for key
    using map_of_ensure[OF assms(1) ne] assms(4) by simp
  have a: "map fst ?r = map fst json_data" using assms(1) by (rule keys_ensure)
  have b: "length ys = N" if "map_of ?r key = Some (Seq ys)" for key ys
  proof -
    have "map_option (reconciled N key) (map_of json_data key) = Some (Seq ys)"
      using that look by simp
    then obtain v where v: "reconciled N key v = Seq ys"
      unfolding map_option_eq_Some by blast
    obtain xs where "v = Seq xs" using reconciled_eq_Seq_D[OF v] by blast
    then show ?thesis using v reconciled_length[of N key xs ys] by simp
  qed
  have c: "\<exists>ys. map_of ?r key = Some (Seq ys) \<and> length ys = N \<and>
          (length xs = 0 \<longrightarrow> ys = replicate N (filler key)) \<and>
          (1 \<le> length xs \<and> length xs \<le> N - 1 \<longrightarrow>
             ys = xs @ replicate (N - length xs) (filler key)) \<and>
          (N < length xs \<longrightarrow> ys = take N xs)"
    if "map_of json_data key = Some (Seq xs)" for key xs
  proof -
    obtain ys where ys: "reconciled N key (Seq xs) = Seq ys"
      using reconciled_Seq_ex[of N key xs] by blast
    have m: "map_of ?r key = Some (Seq ys)" using look[of key] that ys by simp
    have l: "length ys = N" using ys by (rule reconciled_length)
    have "(length xs = 0 \<longrightarrow> ys = replicate N (filler key)) \<and>
          (1 \<le> length xs \<and> length xs \<le> N - 1 \<longrightarrow>
             ys = xs @ replicate (N - length xs) (filler key)) \<and>
          (N < length xs \<longrightarrow> ys = take N xs)"
      using ys by (auto simp: reconciled_def split: if_splits)
    then show ?thesis using m l by blast
  qed
  have d: "filler key =
       (if key = ''Qty'' \<or> key = ''U.Price'' \<or> key = ''Total'' then SInt 0 else SStr '''')" for key
    by (simp add: filler_def)
  show ?thesis using a b c d by blast
qed

theorem ensure_equal_length_arrays_lengths_witness:
  "distinct (map fst [(''Date'', Seq []), (''Product'', Seq [SStr ''A'', SStr ''B'']),
       (''Qty'', Seq [SInt 1]), (''Total'', Seq [SInt 5, SInt 6, SInt 7])]) \<and>
   target_length (non_empty_lengths [(''Date'', Seq []), (''Product'', Seq [SStr ''A'', SStr ''B'']),
       (''Qty'', Seq [SInt 1]), (''Total'', Seq [SInt 5, SInt 6, SInt 7])]) = 2 \<and>
   ensure_equal_length_arrays [(''Date'', Seq []), (''Product'', Seq [SStr ''A'', SStr ''B'']),
       (''Qty'', Seq [SInt 1]), (''Total'', Seq [SInt 5, SInt 6, SInt 7])]
     = [(''Date'', Seq [SStr '''', SStr '''']), (''Product'', Seq [SStr ''A'', SStr ''B'']),
        (''Qty'', Seq [SInt 1, SInt 0]), (''Total'', Seq [SInt 5, SInt 6])]"
proof -
  let ?d = "[(''Date'', Seq []), (''Product'', Seq [SStr ''A'', SStr ''B'']),
       (''Qty'', Seq [SInt 1]), (''Total'', Seq [SInt 5, SInt 6, SInt 7])]"
  have h1: "distinct (map fst ?d)" by simp
  have h2: "map_of ?d ''Product'' = Some (Seq [SStr ''A'', SStr ''B''])" by simp
  have h3: "[SStr ''A'', SStr ''B''] \<noteq> []" by simp
  have t: "target_length (non_empty_lengths ?d) = 2" by code_simp
  have e: "ensure_equal_length_arrays ?d
     = [(''Date'', Seq [SStr '''', SStr '''']), (''Product'', Seq [SStr ''A'', SStr ''B'']),
        (''Qty'', Seq [SInt 1, SInt 0]), (''Total'', Seq [SInt 5, SInt 6])]" by code_simp
  note ensure_equal_length_arrays_lengths[OF h1 h2 h3 t[symmetric]]
  then show ?thesis using h1 t e by simp
qed

lemma non_empty_lengths_sub:
  assumes "distinct (map fst d)" and "set e \<subseteq> set d"
  shows "map (len_at d) (filter (\<lambda>key. len_at d key > 0)
           (map fst (filter (\<lambda>(key, value). isinstance_list value) e))) = field_lengths e"
  using assms(2)
proof (induction e rule: field_lengths.induct)
  case 1
  show ?case by simp
next
  case (2 key xs rest)
  have "(key, Seq xs) \<in> set d" using 2 by simp
  then have "map_of d key = Some (Seq xs)" using assms(1) by (rule map_of_is_SomeI[rotated])
  then have l: "len_at d key = length xs" by (rule len_at_Seq)
  show ?case using 2 l by simp
next
  case (3 key s rest)
  then show ?case by simp
qed

lemma non_empty_lengths_fields:
  "distinct (map fst d) \<Longrightarrow> non_empty_lengths d = field_lengths d"
  using non_empty_lengths_sub[of d d] by (simp add: non_empty_lengths_def array_keys_def)

lemma field_lengths_field:
  "n \<in> set (field_lengths d) \<Longrightarrow> \<exists>key xs. (key, Seq xs) \<in> set d \<and> xs \<noteq> [] \<and> length xs = n"
  by (induction d rule: field_lengths.induct) (auto split: if_splits)

text \<open>
  Claim C4. The lengths that \<open>ensure_equal_length_arrays\<close> counts are exactly the
  lengths of the non-empty list values of the extraction, in the order of its fields
  (empty lists and scalars contribute nothing). The dominant length N it computes is the
  length of some non-empty list field, no length is more frequent among those fields,
  and among equally frequent lengths N is the one met first: every length met before the
  first occurrence of N is strictly less frequent than N. For the extraction with
  Product = [A, B] and Qty = [1], N is 2 and Qty becomes [1, 0]; empty lists do not take
  part in the count.
\<close>

theorem target_length_most_frequent_first:
  assumes "distinct (map fst json_data)"
    and "map_of json_data k0 = Some (Seq xs0)" and "xs0 \<noteq> []"
    and "N = target_length (non_empty_lengths json_data)"
  shows "non_empty_lengths json_data = field_lengths json_data \<and>
         (\<exists>key xs. map_of json_data key = Some (Seq xs) \<and> xs \<noteq> [] \<and> length xs = N) \<and>
         (\<exists>pre post. field_lengths json_data = pre @ N # post \<and> N \<notin> set pre \<and>
            (\<forall>m\<in>set pre. count_list (field_lengths json_data) m
                               < count_list (field_lengths json_data) N)) \<and>
         (\<forall>m. count_list (field_lengths json_data) m
                 \<le> count_list (field_lengths json_data) N) \<and>
         target_length (non_empty_lengths
            [(''Product'', Seq [SStr ''A'', SStr ''B'']), (''Qty'', Seq [SInt 1])]) = 2 \<and>
         ensure_equal_length_arrays
            [(''Product'', Seq [SStr ''A'', SStr ''B'']), (''Qty'', Seq [SInt 1])]
           = [(''Product'', Seq [SStr ''A'', SStr ''B'']), (''Qty'', Seq [SInt 1, SInt 0])] \<and>
         target_length (non_empty_lengths
            [(''Date'', Seq []), (''Note'', Seq []), (''Product'', Seq [SStr ''A''])]) = 1"
proof -
  let ?ls = "field_lengths json_data"
  have eq: "non_empty_lengths json_data = ?ls"
    using assms(1) by (rule non_empty_lengths_fields)
  have ne: "?ls \<noteq> []"
    using non_empty_lengths_nonempty[OF assms(2,3)] eq by simp
  have N: "N = target_length ?ls" using assms(4) eq by simp
  obtain pre post where sp: "?ls = pre @ N # post" and np: "N \<notin> set pre"
      and lt: "\<forall>m\<in>set pre. count_list ?ls m < count_list ?ls N"
      and le: "\<forall>m\<in>set ?ls. count_list ?ls m \<le> count_list ?ls N"
    using target_length_first_most_frequent[OF ne] N by auto
  have "N \<in> set ?ls" using sp by (metis in_set_conv_decomp)
  then obtain key xs where f: "(key, Seq xs) \<in> set json_data" "xs \<noteq> []" "length xs = N"
    using field_lengths_field by blast
  have "map_of json_data key = Some (Seq xs)"
    using assms(1) f(1) by (rule map_of_is_SomeI)
  then have a: "\<exists>key xs. map_of json_data key = Some (Seq xs) \<and> xs \<noteq> [] \<and> length xs = N"
    using f(2,3) by blast
  have b: "\<exists>pre post. ?ls = pre @ N # post \<and> N \<notin> set pre \<and>
            (\<forall>m\<in>set pre. count_list ?ls m < count_list ?ls N)"
    using sp np lt by blast
  have c: "count_list ?ls m \<le> count_list ?ls N" for m
  proof (cases "m \<in> set ?ls")
    case True
    then show ?thesis using le by blast
  next
    case False
    then show ?thesis by (simp add: count_list_0_iff)
  qed
  have t: "target_length (non_empty_lengths
            [(''Product'', Seq [SStr ''A'', SStr ''B'']), (''Qty'', Seq [SInt 1])]) = 2"
    by code_simp
  have e: "ensure_equal_length_arrays
            [(''Product'', Seq [SStr ''A'', SStr ''B'']), (''Qty'', Seq [SInt 1])]
           = [(''Product'', Seq [SStr ''A'', SStr ''B'']), (''Qty'', Seq [SInt 1, SInt 0])]"
    by code_simp
  have z: "target_length (non_empty_lengths
            [(''Date'', Seq []), (''Note'', Seq []), (''Product'', Seq [SStr ''A''])]) = 1"
    by code_simp
  show ?thesis using eq a b c t e z by blast
qed

theorem target_length_most_frequent_first_witness:
  "distinct (map fst [(''Date'', Seq [SStr ''d'']), (''Note'', Seq []),
       (''Product'', Seq [SStr ''A'', SStr ''B'']), (''Qty'', Seq [SInt 1]),
       (''Total'', Seq [SInt 5, SInt 6])]) \<and>
   non_empty_lengths [(''Date'', Seq [SStr ''d'']), (''Note'', Seq []),
       (''Product'', Seq [SStr ''A'', SStr ''B'']), (''Qty'', Seq [SInt 1]),
       (''Total'', Seq [SInt 5, SInt 6])] = [1, 2, 1, 2] \<and>
   field_lengths [(''Date'', Seq [SStr ''d'']), (''Note'', Seq []),
       (''Product'', Seq [SStr ''A'', SStr ''B'']), (''Qty'', Seq [SInt 1]),
       (''Total'', Seq [SInt 5, SInt 6])] = [1, 2, 1, 2] \<and>
   target_length [1, 2, 1, 2] = 1 \<and>
   count_list [1, 2, 1, 2] (2::nat) = count_list [1, 2, 1, 2] (1::nat) \<and>
   (\<exists>pre post. [1, 2, 1, 2] = pre @ (1::nat) # post \<and> (1::nat) \<notin> set pre)"
proof -
  let ?d = "[(''Date'', Seq [SStr ''d'']), (''Note'', Seq []),
       (''Product'', Seq [SStr ''A'', SStr ''B'']), (''Qty'', Seq [SInt 1]),
       (''Total'', Seq [SInt 5, SInt 6])]"
  have h1: "distinct (map fst ?d)" by simp
  have h2: "map_of ?d ''Date'' = Some (Seq [SStr ''d''])" by simp
  have h3: "[SStr ''d''] \<noteq> []" by simp
  have l: "non_empty_lengths ?d = [1, 2, 1, 2]" by code_simp
  have f: "field_lengths ?d = [1, 2, 1, 2]" by simp
  have t: "target_length [1, 2, 1, 2] = 1" by code_simp
  have h4: "1 = target_length (non_empty_lengths ?d)" using l t by simp
  have c: "count_list [1, 2, 1, 2] (2::nat) = count_list [1, 2, 1, 2] (1::nat)" by simp
  note target_length_most_frequent_first[OF h1 h2 h3 h4]
  then have "\<exists>pre post. field_lengths ?d = pre @ (1::nat) # post \<and> (1::nat) \<notin> set pre"
    by blast
  then have ex: "\<exists>pre post. [1, 2, 1, 2] = pre @ (1::nat) # post \<and> (1::nat) \<notin> set pre"
    unfolding f .
  show ?thesis
    by (rule conjI[OF h1 conjI[OF l conjI[OF f conjI[OF t conjI[OF c ex]]]]])
qed

text \<open>
  Claim C7. Reconciliation is idempotent: applying \<open>ensure_equal_length_arrays\<close> to its
  own result returns that result again.
\<close>

theorem ensure_equal_length_arrays_idempotent:
  assumes "distinct (map fst json_data)"
  shows "ensure_equal_length_arrays (ensure_equal_length_arrays json_data)
           = ensure_equal_length_arrays json_data"
  using assms by (rule ensure_idempotent_distinct)

theorem ensure_equal_length_arrays_idempotent_witness:
  "distinct (map fst [(''Date'', Seq []), (''Product'', Seq [SStr ''A'', SStr ''B'']),
       (''Qty'', Seq [SInt 1]), (''Total'', Seq [SInt 5, SInt 6, SInt 7])]) \<and>
   ensure_equal_length_arrays (ensure_equal_length_arrays
      [(''Date'', Seq []), (''Product'', Seq [SStr ''A'', SStr ''B'']),
       (''Qty'', Seq [SInt 1]), (''Total'', Seq [SInt 5, SInt 6, SInt 7])])
     = [(''Date'', Seq [SStr '''', SStr '''']), (''Product'', Seq [SStr ''A'', SStr ''B'']),
        (''Qty'', Seq [SInt 1, SInt 0]), (''Total'', Seq [SInt 5, SInt 6])]"
proof -
  let ?d = "[(''Date'', Seq []), (''Product'', Seq [SStr ''A'', SStr ''B'']),
       (''Qty'', Seq [SInt 1]), (''Total'', Seq [SInt 5, SInt 6, SInt 7])]"
  have h: "distinct (map fst ?d)" by simp
  have e: "ensure_equal_length_arrays ?d
     = [(''Date'', Seq [SStr '''', SStr '''']), (''Product'', Seq [SStr ''A'', SStr ''B'']),
        (''Qty'', Seq [SInt 1, SInt 0]), (''Total'', Seq [SInt 5, SInt 6])]" by code_simp
  have "ensure_equal_length_arrays (ensure_equal_length_arrays ?d)
     = ensure_equal_length_arrays ?d"
    using h by (rule ensure_equal_length_arrays_idempotent)
  then have "ensure_equal_length_arrays (ensure_equal_length_arrays ?d)
     = [(''Date'', Seq [SStr '''', SStr '''']), (''Product'', Seq [SStr ''A'', SStr ''B'']),
        (''Qty'', Seq [SInt 1, SInt 0]), (''Total'', Seq [SInt 5, SInt 6])]"
    by (simp only: e)
  then show ?thesis using h by (rule conjI[rotated])
qed

text \<open>
  Claim C6, as the code has it. The claim says that after reconciliation every field of
  the fixed set Date, Product, Qty, U.Price, Total has a list of length N, also a field
  that was absent from the raw extraction. The code only walks the keys that are present
  with a list value: it never adds a key. For Product = [A, B] and Qty = [1] the result
  has no Date, U.Price or Total at all.
\<close>

theorem absent_field_not_added:
  "target_length (non_empty_lengths
      [(''Product'', Seq [SStr ''A'', SStr ''B'']), (''Qty'', Seq [SInt 1])]) = 2 \<and>
   map_of (ensure_equal_length_arrays
      [(''Product'', Seq [SStr ''A'', SStr ''B'']), (''Qty'', Seq [SInt 1])]) ''Date'' = None \<and>
   \<not> (\<exists>ys. map_of (ensure_equal_length_arrays
      [(''Product'', Seq [SStr ''A'', SStr ''B'']), (''Qty'', Seq [SInt 1])]) ''Date''
        = Some (Seq ys) \<and> length ys = 2)"
proof -
  have t: "target_length (non_empty_lengths
      [(''Product'', Seq [SStr ''A'', SStr ''B'']), (''Qty'', Seq [SInt 1])]) = 2"
    by code_simp
  have e: "ensure_equal_length_arrays
      [(''Product'', Seq [SStr ''A'', SStr ''B'']), (''Qty'', Seq [SInt 1])]
     = [(''Product'', Seq [SStr ''A'', SStr ''B'']), (''Qty'', Seq [SInt 1, SInt 0])]"
    by code_simp
  show ?thesis unfolding e using t by simp
qed

text \<open>
  Claim C6, amended. For an extraction with at least one non-empty list value and
  dominant length N, and for each field name of the fixed set: a field that is absent
  stays absent, a field with a scalar value keeps it, a field with an empty list gets N
  copies of its placeholder (the integer 0 for Qty, U.Price and Total, the empty string
  for Date and Product), and a field with any list gets a list of length N.
\<close>

theorem fixed_fields_after_reconciliation:
  assumes "distinct (map fst json_data)"
    and "map_of json_data k0 = Some (Seq xs0)" and "xs0 \<noteq> []"
    and "N = target_length (non_empty_lengths json_data)"
    and "key \<in> {''Date'', ''Product'', ''Qty'', ''U.Price'', ''Total''}"
  shows "(map_of json_data key = None \<longrightarrow>
            map_of (ensure_equal_length_arrays json_data) key = None) \<and>
         (\<forall>s. map_of json_data key = Some (Scalar s) \<longrightarrow>
            map_of (ensure_equal_length_arrays json_data) key = Some (Scalar s)) \<and>
         (map_of json_data key = Some (Seq []) \<longrightarrow>
            map_of (ensure_equal_length_arrays json_data) key
              = Some (Seq (replicate N
                  (if key = ''Date'' \<or> key = ''Product'' then SStr '''' else SInt 0)))) \<and>
         (\<forall>xs. map_of json_data key = Some (Seq xs) \<longrightarrow>
            (\<exists>ys. map_of (ensure_equal_length_arrays json_data) key = Some (Seq ys) \<and>
                  length ys = N))"
proof -
  let ?r = "ensure_equal_length_arrays json_data"
  have ne: "non_empty_lengths json_data \<noteq> []"
    using assms(2,3) by (rule non_empty_lengths_nonempty)
  have look: "map_of ?r key = map_option (reconciled N key) (map_of json_data key)"
    using map_of_ensure[OF assms(1) ne] assms(4) by simp
  have f: "filler key = (if key = ''Date'' \<or> key = ''Product'' then SStr '''' else SInt 0)"
    using assms(5) by (auto simp: filler_def)
  have a: "map_of json_data key = None \<longrightarrow> map_of ?r key = None"
    using look by simp
  have b: "\<forall>s. map_of json_data key = Some (Scalar s) \<longrightarrow> map_of ?r key = Some (Scalar s)"
    using look by (simp add: reconciled_def)
  have c: "map_of json_data key = Some (Seq []) \<longrightarrow>
            map_of ?r key = Some (Seq (replicate N
                  (if key = ''Date'' \<or> key = ''Product'' then SStr '''' else SInt 0)))"
    using look f by (simp add: reconciled_def)
  have d: "\<exists>ys. map_of ?r key = Some (Seq ys) \<and> length ys = N"
    if "map_of json_data key = Some (Seq xs)" for xs
  proof -
    obtain ys where ys: "reconciled N key (Seq xs) = Seq ys"
      using reconciled_Seq_ex[of N key xs] by blast
    have "map_of ?r key = Some (Seq ys)" using look that ys by simp
    moreover have "length ys = N" using ys by (rule reconciled_length)
    ultimately show ?thesis by blast
  qed
  show ?thesis using a b c d by blast
qed

theorem fixed_fields_after_reconciliation_witness:
  "distinct (map fst [(''Date'', Seq []), (''Product'', Seq [SStr ''A'', SStr ''B'']),
       (''Qty'', Seq [SInt 1])]) \<and>
   target_length (non_empty_lengths [(''Date'', Seq []),
       (''Product'', Seq [SStr ''A'', SStr ''B'']), (''Qty'', Seq [SInt 1])]) = 2 \<and>
   map_of [(''Date'', Seq []), (''Product'', Seq [SStr ''A'', SStr ''B'']),
       (''Qty'', Seq [SInt 1])] ''Total'' = None \<and>
   map_of (ensure_equal_length_arrays [(''Date'', Seq []),
       (''Product'', Seq [SStr ''A'', SStr ''B'']), (''Qty'', Seq [SInt 1])]) ''Total'' = None \<and>
   map_of (ensure_equal_length_arrays [(''Date'', Seq []),
       (''Product'', Seq [SStr ''A'', SStr ''B'']), (''Qty'', Seq [SInt 1])]) ''Date''
     = Some (Seq [SStr '''', SStr ''''])"
proof -
  let ?d = "[(''Date'', Seq []), (''Product'', Seq [SStr ''A'', SStr ''B'']),
       (''Qty'', Seq [SInt 1])]"
  have h1: "distinct (map fst ?d)" by simp
  have h2: "map_of ?d ''Product'' = Some (Seq [SStr ''A'', SStr ''B''])" by simp
  have h3: "[SStr ''A'', SStr ''B''] \<noteq> []" by simp
  have t: "target_length (non_empty_lengths ?d) = 2" by code_simp
  have k1: "''Total'' \<in> {''Date'', ''Product'', ''Qty'', ''U.Price'', ''Total''}" by simp
  have k2: "''Date'' \<in> {''Date'', ''Product'', ''Qty'', ''U.Price'', ''Total''}" by simp
  have n: "map_of ?d ''Total'' = None" by simp
  have m: "map_of ?d ''Date'' = Some (Seq [])" by simp
  have a: "map_of (ensure_equal_length_arrays ?d) ''Total'' = None"
    using fixed_fields_after_reconciliation[OF h1 h2 h3 t[symmetric] k1] n by blast
  have "map_of (ensure_equal_length_arrays ?d) ''Date''
      = Some (Seq (replicate 2 (if ''Date'' = ''Date'' \<or> ''Date'' = ''Product''
            then SStr '''' else SInt 0)))"
    using fixed_fields_after_reconciliation[OF h1 h2 h3 t[symmetric] k2] m by blast
  then have b: "map_of (ensure_equal_length_arrays ?d) ''Date''
      = Some (Seq [SStr '''', SStr ''''])"
    by (simp add: numeral_2_eq_2)
  show ?thesis
    by (rule conjI[OF h1 conjI[OF t conjI[OF n conjI[OF a b]]]])
qed

section \<open>Properties of the cleaner\<close>








section \<open>Properties of the response parser\<close>

lemma dropWhile_keeps_suffix: "\<not> P y \<Longrightarrow> set (y # ys) \<subseteq> set (dropWhile P (xs @ y # ys))"
  by (induction xs) auto

lemma re_search_braces_Some:
  assumes "re_search_braces text = Some m"
  shows "\<exists>pre mid post. text = pre @ m @ post \<and> m = CHR ''{'' # mid @ [CHR ''}''] \<and>
           CHR ''{'' \<notin> set pre \<and> CHR ''}'' \<notin> set post"
proof -
  let ?open = "\<lambda>c. c \<noteq> CHR ''{''" and ?close = "\<lambda>c. c \<noteq> CHR ''}''"
  define tail where "tail = dropWhile ?open text"
  define pre where "pre = takeWhile ?open text"
  define post where "post = rev (takeWhile ?close (rev tail))"
  define body where "body = dropWhile ?close (rev tail)"
  have cl: "CHR ''}'' \<in> set tail" and m: "m = rev body"
    using assms by (auto simp: re_search_braces_def tail_def body_def Let_def split: if_splits)
  have t: "text = pre @ tail" by (simp add: pre_def tail_def)
  have "rev tail = takeWhile ?close (rev tail) @ body" by (simp add: body_def)
  then have "rev (rev tail) = rev (takeWhile ?close (rev tail) @ body)" by (rule arg_cong)
  then have tl: "tail = m @ post" by (simp add: m post_def)
  have p1: "CHR ''{'' \<notin> set pre" unfolding pre_def using set_takeWhileD by fastforce
  have p2: "CHR ''}'' \<notin> set post" unfolding post_def using set_takeWhileD by fastforce
  have bne: "body \<noteq> []" using cl by (auto simp: body_def dropWhile_eq_Nil_conv)
  then have "hd body = CHR ''}''" using hd_dropWhile[of "?close" "rev tail"] by (simp add: body_def)
  then obtain rest where b: "body = CHR ''}'' # rest" using bne by (cases body) auto
  have tne: "tail \<noteq> []" using cl by auto
  then have "hd tail = CHR ''{''" using hd_dropWhile[of "?open" "text"] by (simp add: tail_def)
  then obtain tl' where tc: "tail = CHR ''{'' # tl'" using tne by (cases tail) auto
  have mr: "m = rev rest @ [CHR ''}'']" using m b by simp
  have "rev rest \<noteq> []"
  proof
    assume "rev rest = []"
    then have "tail = CHR ''}'' # post" using tl mr by simp
    then show False using tc by simp
  qed
  then obtain c mid where rr: "rev rest = c # mid" by (cases "rev rest") auto
  then have "c = CHR ''{''" using tl mr tc by simp
  then have "m = CHR ''{'' # mid @ [CHR ''}'']" using mr rr by simp
  then show ?thesis using t tl p1 p2 by auto
qed

lemma re_search_braces_None:
  "re_search_braces text = None \<longleftrightarrow> \<not> (\<exists>a b c. text = a @ CHR ''{'' # b @ CHR ''}'' # c)"
proof
  assume n: "re_search_braces text = None"
  show "\<not> (\<exists>a b c. text = a @ CHR ''{'' # b @ CHR ''}'' # c)"
  proof
    assume "\<exists>a b c. text = a @ CHR ''{'' # b @ CHR ''}'' # c"
    then obtain a b c where t: "text = a @ CHR ''{'' # b @ CHR ''}'' # c" by blast
    have "set (CHR ''{'' # b @ CHR ''}'' # c) \<subseteq> set (dropWhile (\<lambda>c. c \<noteq> CHR ''{'') text)"
      unfolding t by (rule dropWhile_keeps_suffix) simp
    then have "CHR ''}'' \<in> set (dropWhile (\<lambda>c. c \<noteq> CHR ''{'') text)" by auto
    then show False using n by (simp add: re_search_braces_def Let_def)
  qed
next
  assume n: "\<not> (\<exists>a b c. text = a @ CHR ''{'' # b @ CHR ''}'' # c)"
  show "re_search_braces text = None"
  proof (cases "re_search_braces text")
    case None
    then show ?thesis .
  next
    case (Some m)
    then obtain pre mid post where "text = pre @ m @ post" "m = CHR ''{'' # mid @ [CHR ''}'']"
      using re_search_braces_Some by blast
    then have "text = pre @ CHR ''{'' # mid @ CHR ''}'' # post" by simp
    then show ?thesis using n by blast
  qed
qed

lemma extract_Some_iff:
  "extract_json_from_response loads text = Inr (Some d) \<longleftrightarrow>
     (\<exists>m v. re_search_braces text = Some m \<and> loads m = Loaded d \<and>
            map_of d ''Product'' = Some v \<and> truthy v)"
  by (auto simp: extract_json_from_response_def
           split: option.splits loads_outcome.splits if_splits)

text \<open>
  Claim C3, as the code has it. The claim gives the three failures three signals,
  NoJsonFound, InvalidJson and MissingProductField. The code has one failure value for
  all of them, \<^verbatim>\<open>return None\<close>: on a text without braces, on a brace span that is not
  JSON and on an object without Product the contract names three different signals,
  while the function returns the same value.
\<close>

theorem failure_signals_not_distinguished:
  \<open>response_parser_signal example_loads ''no json here'' = Some NoJsonFound \<and>
   response_parser_signal example_loads ''{not json}'' = Some InvalidJson \<and>
   response_parser_signal example_loads ''{"Total":[10]}'' = Some MissingProductField \<and>
   extract_json_from_response example_loads ''no json here'' = Inr None \<and>
   extract_json_from_response example_loads ''{not json}'' = Inr None \<and>
   extract_json_from_response example_loads ''{"Total":[10]}'' = Inr None\<close>
  by code_simp

text \<open>
  Claim C3, amended. The function searches the substring from the first opening brace
  to the last closing brace and parses it. It returns \<open>None\<close>, the same value in each
  case, when there is no such substring, when the substring is not valid JSON
  (\<^verbatim>\<open>JSONDecodeError\<close>), and when the parsed object has no Product key or a Product
  value that is empty or missing (an empty list, an empty string or null; more
  generally any value Python counts as false). It returns the parsed mapping, unchanged,
  exactly when the substring parses to a mapping whose Product value counts as true.
\<close>

theorem extract_json_from_response_cases:
  shows "(\<forall>m. re_search_braces text = Some m \<longrightarrow>
            (\<exists>pre mid post. text = pre @ m @ post \<and> m = CHR ''{'' # mid @ [CHR ''}''] \<and>
               CHR ''{'' \<notin> set pre \<and> CHR ''}'' \<notin> set post)) \<and>
         (re_search_braces text = None \<longleftrightarrow>
            \<not> (\<exists>a b c. text = a @ CHR ''{'' # b @ CHR ''}'' # c)) \<and>
         (re_search_braces text = None \<longrightarrow>
            extract_json_from_response loads text = Inr None) \<and>
         (\<forall>m. re_search_braces text = Some m \<and> loads m = JSONDecodeError \<longrightarrow>
            extract_json_from_response loads text = Inr None) \<and>
         (\<forall>m d. re_search_braces text = Some m \<and> loads m = Loaded d \<and>
            (map_of d ''Product'' = None \<or> map_of d ''Product'' = Some (Seq []) \<or>
             map_of d ''Product'' = Some (Scalar (SStr [])) \<or>
             map_of d ''Product'' = Some (Scalar SNull)) \<longrightarrow>
            extract_json_from_response loads text = Inr None) \<and>
         (\<forall>m d v. re_search_braces text = Some m \<and> loads m = Loaded d \<and>
            map_of d ''Product'' = Some v \<and> \<not> truthy v \<longrightarrow>
            extract_json_from_response loads text = Inr None) \<and>
         (\<forall>d. extract_json_from_response loads text = Inr (Some d) \<longleftrightarrow>
            (\<exists>m v. re_search_braces text = Some m \<and> loads m = Loaded d \<and>
               map_of d ''Product'' = Some v \<and> truthy v))"
proof -
  have a: "\<forall>m. re_search_braces text = Some m \<longrightarrow>
            (\<exists>pre mid post. text = pre @ m @ post \<and> m = CHR ''{'' # mid @ [CHR ''}''] \<and>
               CHR ''{'' \<notin> set pre \<and> CHR ''}'' \<notin> set post)"
    using re_search_braces_Some by blast
  have b: "re_search_braces text = None \<longleftrightarrow>
            \<not> (\<exists>a b c. text = a @ CHR ''{'' # b @ CHR ''}'' # c)"
    by (rule re_search_braces_None)
  have c: "re_search_braces text = None \<longrightarrow> extract_json_from_response loads text = Inr None"
    by (simp add: extract_json_from_response_def)
  have d: "\<forall>m. re_search_braces text = Some m \<and> loads m = JSONDecodeError \<longrightarrow>
            extract_json_from_response loads text = Inr None"
    by (simp add: extract_json_from_response_def)
  have e: "\<forall>m d. re_search_braces text = Some m \<and> loads m = Loaded d \<and>
            (map_of d ''Product'' = None \<or> map_of d ''Product'' = Some (Seq []) \<or>
             map_of d ''Product'' = Some (Scalar (SStr [])) \<or>
             map_of d ''Product'' = Some (Scalar SNull)) \<longrightarrow>
            extract_json_from_response loads text = Inr None"
    by (auto simp: extract_json_from_response_def)
  have f: "\<forall>m d v. re_search_braces text = Some m \<and> loads m = Loaded d \<and>
            map_of d ''Product'' = Some v \<and> \<not> truthy v \<longrightarrow>
            extract_json_from_response loads text = Inr None"
    by (auto simp: extract_json_from_response_def)
  have g: "\<forall>d. extract_json_from_response loads text = Inr (Some d) \<longleftrightarrow>
            (\<exists>m v. re_search_braces text = Some m \<and> loads m = Loaded d \<and>
               map_of d ''Product'' = Some v \<and> truthy v)"
    using extract_Some_iff by blast
  show ?thesis
    by (rule conjI[OF a conjI[OF b conjI[OF c conjI[OF d conjI[OF e conjI[OF f g]]]]]])
qed

theorem extract_json_from_response_cases_witness:
  \<open>re_search_braces ''Here is the result: {"Product":["X"],"Total":[10]} Thanks!''
     = Some ''{"Product":["X"],"Total":[10]}'' \<and>
   extract_json_from_response example_loads
       ''Here is the result: {"Product":["X"],"Total":[10]} Thanks!''
     = Inr (Some [(''Product'', Seq [SStr ''X'']), (''Total'', Seq [SInt 10])]) \<and>
   re_search_braces ''} no object {'' = None \<and>
   extract_json_from_response example_loads ''} no object {'' = Inr None \<and>
   extract_json_from_response example_loads ''x {"Product":0,"Total":[10]} y'' = Inr None\<close>
proof -
  let ?t = \<open>''Here is the result: {"Product":["X"],"Total":[10]} Thanks!''\<close>
  let ?m = \<open>''{"Product":["X"],"Total":[10]}''\<close>
  let ?d = "[(''Product'', Seq [SStr ''X'']), (''Total'', Seq [SInt 10])]"
  have s: "re_search_braces ?t = Some ?m" by code_simp
  have l: "example_loads ?m = Loaded ?d" by code_simp
  have p: "map_of ?d ''Product'' = Some (Seq [SStr ''X''])" by simp
  have v: "truthy (Seq [SStr ''X''])" by simp
  have "\<exists>m v. re_search_braces ?t = Some m \<and> example_loads m = Loaded ?d \<and>
               map_of ?d ''Product'' = Some v \<and> truthy v"
    using s l p v by blast
  then have a: "extract_json_from_response example_loads ?t = Inr (Some ?d)"
    using extract_json_from_response_cases[of ?t example_loads] by blast
  have n: \<open>re_search_braces ''} no object {'' = None\<close> by code_simp
  have b: \<open>extract_json_from_response example_loads ''} no object {'' = Inr None\<close>
    using extract_json_from_response_cases[of \<open>''} no object {''\<close> example_loads] n by blast
  have c: \<open>extract_json_from_response example_loads ''x {"Product":0,"Total":[10]} y'' = Inr None\<close>
    by code_simp
  show ?thesis by (rule conjI[OF s conjI[OF a conjI[OF n conjI[OF b c]]]])
qed

section \<open>Properties of the per-document pipeline\<close>

lemma map_of_adjust_key_None:
  "map_of (adjust_key n key d) k = None \<longleftrightarrow> map_of d k = None"
  by (auto simp: adjust_key_def update_conv' Let_def split: option.splits jvalue.splits)

lemma map_of_fold_adjust_key_None:
  "map_of (fold (adjust_key n) ks d) k = None \<longleftrightarrow> map_of d k = None"
  by (induction ks arbitrary: d) (simp_all add: map_of_adjust_key_None)

lemma map_of_ensure_None:
  "map_of (ensure_equal_length_arrays d) k = None \<longleftrightarrow> map_of d k = None"
  by (simp add: ensure_equal_length_arrays_def map_of_fold_adjust_key_None)

lemma map_of_DataFrame:
  "DataFrame d = Inr df \<Longrightarrow>
   map_of (columns df) k = map_option (to_column (nrows df)) (map_of d k)"
  by (auto simp: DataFrame_def empty_frame_def map_of_map_values
           split: if_splits list.splits)

lemma map_of_coerce_column:
  "map_of (columns (coerce_column lib c df)) k =
     (if k = c then map_option (to_numeric lib) (map_of (columns df) c)
      else map_of (columns df) k)"
  by (auto simp: coerce_column_def update_conv' split: option.splits)

lemma nrows_coerce_column: "nrows (coerce_column lib c df) = nrows df"
  by (simp add: coerce_column_def split: option.splits)

lemma map_of_add_markup_other:
  "add_markup lib df = Inr df' \<Longrightarrow> k \<noteq> ''Marked_Up_Price'' \<Longrightarrow>
   map_of (columns df') k = map_of (columns df) k"
  by (auto simp: add_markup_def update_conv' split: option.splits sum.splits)

lemma nrows_add_markup: "add_markup lib df = Inr df' \<Longrightarrow> nrows df' = nrows df"
  by (auto simp: add_markup_def split: option.splits sum.splits)

lemma map_of_set_source_other:
  "k \<noteq> ''Source'' \<Longrightarrow> map_of (columns (set_source b df)) k = map_of (columns df) k"
  by (simp add: set_source_def update_conv')

lemma clean_dataframe_no_Total:
  assumes "map_of (columns df) ''Total'' = None"
  shows "\<exists>e. clean_dataframe lib df = Inl e"
  using assms by (auto simp: clean_dataframe_def Let_def split: option.splits sum.splits)

lemma clean_dataframe_no_Total_KeyError:
  assumes "map_of (columns df) ''Total'' = None"
    and "map_of (columns df) ''Product'' = Some (ObjCol ps)" and "str_accessor_ok lib ps"
  shows "clean_dataframe lib df = Inl KeyError"
  using assms by (simp add: clean_dataframe_def Let_def)

lemma Total_absent_before_clean:
  assumes "map_of json_data ''Total'' = None"
    and "DataFrame (ensure_equal_length_arrays json_data) = Inr df"
    and "add_markup lib (fold (coerce_column lib) [''Qty'', ''U.Price'', ''Total''] df) = Inr df'"
  shows "map_of (columns (set_source basename df')) ''Total'' = None"
proof -
  have "map_of (ensure_equal_length_arrays json_data) ''Total'' = None"
    using assms(1) by (simp add: map_of_ensure_None)
  then have "map_of (columns df) ''Total'' = None"
    using map_of_DataFrame[OF assms(2)] by simp
  then have "map_of (columns (fold (coerce_column lib) [''Qty'', ''U.Price'', ''Total''] df))
      ''Total'' = None"
    by (simp add: map_of_coerce_column)
  then have "map_of (columns df') ''Total'' = None"
    using map_of_add_markup_other[OF assms(3), of "''Total''"] by simp
  then show ?thesis by (simp add: map_of_set_source_other)
qed

text \<open>
  Claim C9. When the parsed extraction of a document passes the parser (its Product is
  non-empty) but has no Total key, the pipeline returns zero rows: the body of
  \<open>process_pdf\<close> ends in an exception, which the handler turns into the empty frame.
  \<open>clean_dataframe\<close> raises on every frame without a Total column, and it raises
  KeyError when the frame has a Product column that the string accessor accepts.
\<close>

theorem process_pdf_without_Total:
  assumes "extract_json_from_response loads response = Inr (Some json_data)"
    and "map_of json_data ''Total'' = None"
  shows "process_pdf lib loads basename response = empty_frame \<and>
         nrows (process_pdf lib loads basename response) = 0 \<and>
         (\<exists>e. process_pdf_body lib loads basename response = Inl e) \<and>
         (\<forall>df. map_of (columns df) ''Total'' = None \<longrightarrow> (\<exists>e. clean_dataframe lib df = Inl e)) \<and>
         (\<forall>df ps. map_of (columns df) ''Total'' = None \<and>
             map_of (columns df) ''Product'' = Some (ObjCol ps) \<and> str_accessor_ok lib ps
             \<longrightarrow> clean_dataframe lib df = Inl KeyError)"
proof -
  have body: "\<exists>e. process_pdf_body lib loads basename response = Inl e"
  proof (cases "DataFrame (ensure_equal_length_arrays json_data)")
    case (Inl e)
    then show ?thesis using assms(1) by (simp add: process_pdf_body_def)
  next
    case (Inr df)
    show ?thesis
    proof (cases "add_markup lib (fold (coerce_column lib) [''Qty'', ''U.Price'', ''Total''] df)")
      case (Inl e)
      then show ?thesis using assms(1) Inr by (simp add: process_pdf_body_def)
    next
      case inner: (Inr df')
      have "map_of (columns (set_source basename df')) ''Total'' = None"
        using assms(2) Inr inner by (rule Total_absent_before_clean)
      then obtain e where "clean_dataframe lib (set_source basename df') = Inl e"
        using clean_dataframe_no_Total by blast
      then show ?thesis using assms(1) Inr inner by (simp add: process_pdf_body_def)
    qed
  qed
  then have a: "process_pdf lib loads basename response = empty_frame"
    by (auto simp: process_pdf_def)
  then have b: "nrows (process_pdf lib loads basename response) = 0"
    by (simp add: empty_frame_def)
  have c: "\<forall>df. map_of (columns df) ''Total'' = None \<longrightarrow> (\<exists>e. clean_dataframe lib df = Inl e)"
    using clean_dataframe_no_Total by blast
  have d: "\<forall>df ps. map_of (columns df) ''Total'' = None \<and>
             map_of (columns df) ''Product'' = Some (ObjCol ps) \<and> str_accessor_ok lib ps
             \<longrightarrow> clean_dataframe lib df = Inl KeyError"
    using clean_dataframe_no_Total_KeyError by blast
  show ?thesis by (rule conjI[OF a conjI[OF b conjI[OF body conjI[OF c d]]]])
qed

theorem process_pdf_without_Total_witness:
  \<open>extract_json_from_response example_loads ''Sure: {"Product":["Mint","Basil"],"Qty":[2]}''
     = Inr (Some [(''Product'', Seq [SStr ''Mint'', SStr ''Basil'']), (''Qty'', Seq [SInt 2])]) \<and>
   process_pdf_body example_library example_loads ''a.pdf''
      ''Sure: {"Product":["Mint","Basil"],"Qty":[2]}'' = Inl KeyError \<and>
   process_pdf example_library example_loads ''a.pdf''
      ''Sure: {"Product":["Mint","Basil"],"Qty":[2]}'' = \<lparr>nrows = 0, columns = []\<rparr>\<close>
proof -
  let ?t = \<open>''Sure: {"Product":["Mint","Basil"],"Qty":[2]}''\<close>
  let ?d = "[(''Product'', Seq [SStr ''Mint'', SStr ''Basil'']), (''Qty'', Seq [SInt 2])]"
  have h1: "extract_json_from_response example_loads ?t = Inr (Some ?d)" by code_simp
  have h2: "map_of ?d ''Total'' = None" by simp
  have k: "process_pdf_body example_library example_loads ''a.pdf'' ?t = Inl KeyError"
    by code_simp
  have "process_pdf example_library example_loads ''a.pdf'' ?t = empty_frame"
    using process_pdf_without_Total[OF h1 h2] by blast
  then have e: "process_pdf example_library example_loads ''a.pdf'' ?t
      = \<lparr>nrows = 0, columns = []\<rparr>" by (simp only: empty_frame_def)
  show ?thesis by (rule conjI[OF h1 conjI[OF k e]])
qed

subsection \<open>Well-formed frames\<close>











lemma nrows_set_source: "nrows (set_source b df) = nrows df"
  by (simp add: set_source_def)











lemma add_markup_no_price:
  assumes "add_markup lib df = Inr df'" and "map_of (columns df) ''U.Price'' = None"
  shows "df' = df"
  using assms by (simp add: add_markup_def)



section \<open>Properties of the combined sort\<close>











section \<open>The two scripts agree\<close>

lemma array_keys_gemini_eq: "array_keys_gemini = array_keys"
  by (simp add: fun_eq_iff array_keys_gemini_def array_keys_def)

lemma non_empty_lengths_gemini_eq: "non_empty_lengths_gemini = non_empty_lengths"
  by (simp add: fun_eq_iff non_empty_lengths_gemini_def non_empty_lengths_def
        array_keys_gemini_eq)

lemma filler_gemini_eq: "filler_gemini = filler"
  by (simp add: fun_eq_iff filler_gemini_def filler_def)

lemma adjust_key_gemini_eq: "adjust_key_gemini = adjust_key"
  unfolding adjust_key_gemini_def[abs_def] adjust_key_def[abs_def] filler_gemini_eq
  by (rule refl)

text \<open>
  Claim C10. The three core functions of the two scripts are extensionally equal: for
  every input (and every behaviour of the library) \<open>extract_json_from_response\<close>,
  \<open>ensure_equal_length_arrays\<close> and \<open>clean_dataframe\<close> of the Gemini script return
  what the functions of the same name in the other script return.
\<close>

theorem gemini_functions_equal:
  "extract_json_from_response_gemini loads response_text
     = extract_json_from_response loads response_text \<and>
   ensure_equal_length_arrays_gemini json_data = ensure_equal_length_arrays json_data \<and>
   clean_dataframe_gemini lib df = clean_dataframe lib df"
proof -
  have a: "extract_json_from_response_gemini loads response_text
     = extract_json_from_response loads response_text"
    by (simp only: extract_json_from_response_gemini_def extract_json_from_response_def)
  have b: "ensure_equal_length_arrays_gemini json_data = ensure_equal_length_arrays json_data"
    by (simp only: ensure_equal_length_arrays_gemini_def ensure_equal_length_arrays_def
          array_keys_gemini_eq non_empty_lengths_gemini_eq adjust_key_gemini_eq)
  have c: "clean_dataframe_gemini lib df = clean_dataframe lib df"
    by (simp only: clean_dataframe_gemini_def clean_dataframe_def)
  show ?thesis by (rule conjI[OF a conjI[OF b c]])
qed

theorem gemini_functions_equal_witness:
  \<open>extract_json_from_response_gemini example_loads
       ''Here is the result: {"Product":["X"],"Total":[10]} Thanks!''
     = Inr (Some [(''Product'', Seq [SStr ''X'']), (''Total'', Seq [SInt 10])]) \<and>
   ensure_equal_length_arrays_gemini
       [(''Product'', Seq [SStr ''A'', SStr ''B'']), (''Qty'', Seq [SInt 1])]
     = [(''Product'', Seq [SStr ''A'', SStr ''B'']), (''Qty'', Seq [SInt 1, SInt 0])] \<and>
   clean_dataframe_gemini example_library
       \<lparr>nrows = 2, columns = [(''Product'', ObjCol [SStr ''  '', SStr '''']),
          (''Total'', NumCol [Some 0, Some 5])]\<rparr>
     = Inr \<lparr>nrows = 1, columns = [(''Product'', ObjCol [SStr '''']),
          (''Total'', NumCol [Some 5])]\<rparr>\<close>
proof -
  let ?t = \<open>''Here is the result: {"Product":["X"],"Total":[10]} Thanks!''\<close>
  let ?d = "[(''Product'', Seq [SStr ''A'', SStr ''B'']), (''Qty'', Seq [SInt 1])]"
  let ?df = "\<lparr>nrows = 2, columns = [(''Product'', ObjCol [SStr ''  '', SStr '''']),
          (''Total'', NumCol [Some 0, Some 5])]\<rparr>"
  note eq = gemini_functions_equal[of example_loads ?t ?d example_library ?df]
  have a: "extract_json_from_response example_loads ?t
     = Inr (Some [(''Product'', Seq [SStr ''X'']), (''Total'', Seq [SInt 10])])" by code_simp
  have b: "ensure_equal_length_arrays ?d
     = [(''Product'', Seq [SStr ''A'', SStr ''B'']), (''Qty'', Seq [SInt 1, SInt 0])]"
    by code_simp
  have c: "clean_dataframe example_library ?df
     = Inr \<lparr>nrows = 1, columns = [(''Product'', ObjCol [SStr '''']),
          (''Total'', NumCol [Some 5])]\<rparr>" by code_simp
  show ?thesis using eq a b c by (simp only:)
qed


end
